theory Spec2Isabelle
  imports Main "HOL-Library.Code_Target_Nat"
begin

section \<open>JavaScript strings\<close>

text \<open>
  A JavaScript string is a sequence of UTF-16 code units, here natural numbers (the bound
  65536 plays no part); \<open>length\<close> counts code units. String literals of the source are
  written \<open>js ''...''\<close>.
\<close>

type_synonym jsstring = "nat list"

definition js :: "string \<Rightarrow> jsstring" where
  "js s = map of_char s"

text \<open>
  The characters matched by \<^verbatim>\<open>\s\<close> and stripped by \<^verbatim>\<open>trim()\<close>: ECMAScript's
  WhiteSpace and LineTerminator code points.
\<close>

definition isSpace :: "nat \<Rightarrow> bool" where
  "isSpace c = (c = 9 \<or> c = 10 \<or> c = 11 \<or> c = 12 \<or> c = 13 \<or> c = 32 \<or> c = 160
     \<or> c = 5760 \<or> (8192 \<le> c \<and> c \<le> 8202) \<or> c = 8232 \<or> c = 8233 \<or> c = 8239
     \<or> c = 8287 \<or> c = 12288 \<or> c = 65279)"

text \<open>The characters matched by \<^verbatim>\<open>\w\<close>, which decide \<^verbatim>\<open>\b\<close>: A-Z, a-z, 0-9 and the underscore.\<close>

definition isWordChar :: "nat \<Rightarrow> bool" where
  "isWordChar c = ((65 \<le> c \<and> c \<le> 90) \<or> (97 \<le> c \<and> c \<le> 122) \<or> (48 \<le> c \<and> c \<le> 57) \<or> c = 95)"

definition trim :: "jsstring \<Rightarrow> jsstring" where
  "trim s = rev (dropWhile isSpace (rev (dropWhile isSpace s)))"

text \<open>
  \<^verbatim>\<open>toLowerCase()\<close> on the ASCII range; code units from 128 up are left as they are. The
  source compares a lower-cased string only with "title", "rtf" and "docx" and searches it
  for "heading"; the two code units from 128 up whose lower case holds an ASCII letter
  (U+212A, to k; U+0130, to i followed by U+0307) cannot produce any of these.
\<close>

definition lowerUnit :: "nat \<Rightarrow> nat" where
  "lowerUnit c = (if 65 \<le> c \<and> c \<le> 90 then c + 32 else c)"

definition upperUnit :: "nat \<Rightarrow> nat" where
  "upperUnit c = (if 97 \<le> c \<and> c \<le> 122 then c - 32 else c)"

definition toLowerCase :: "jsstring \<Rightarrow> jsstring" where
  "toLowerCase s = map lowerUnit s"

text \<open>
  \<^verbatim>\<open>toUpperCase()\<close>. Unicode maps every code point to upper case on its own, so the ASCII
  code units are mapped one by one and every maximal run of code units from 128 up is
  mapped as a whole. The Unicode case table of the JavaScript runtime is not part of the
  repository: \<open>upperTable\<close> is that table, the upper case of a run of code units from 128
  up, and a parameter of every function that reaches \<^verbatim>\<open>toUpperCase()\<close>.
\<close>

function toUpperCase :: "(jsstring \<Rightarrow> jsstring) \<Rightarrow> jsstring \<Rightarrow> jsstring" where
  "toUpperCase upperTable [] = []"
| "toUpperCase upperTable (c # cs) =
     (if c < 128 then upperUnit c # toUpperCase upperTable cs
      else upperTable (c # takeWhile (\<lambda>x. 128 \<le> x) cs)
           @ toUpperCase upperTable (dropWhile (\<lambda>x. 128 \<le> x) cs))"
  by pat_completeness auto
termination
  by (relation "measure (\<lambda>(u, s). length s)") (auto simp: length_dropWhile_le less_Suc_eq_le)

text \<open>
  The part of the Unicode table for the Latin-1 letters (U+00B5 to U+039C, U+00DF to "SS",
  U+00E0 to U+00FE but U+00F7 to the letter 32 below, U+00FF to U+0178), for the
  statements that need a table.
\<close>

definition latin1Unit :: "nat \<Rightarrow> jsstring" where
  "latin1Unit c =
     (if c = 181 then [924]
      else if c = 223 then [83, 83]
      else if 224 \<le> c \<and> c \<le> 254 \<and> c \<noteq> 247 then [c - 32]
      else if c = 255 then [376]
      else [c])"

definition latin1Upper :: "jsstring \<Rightarrow> jsstring" where
  "latin1Upper r = concat (map latin1Unit r)"

text \<open>
  \<^verbatim>\<open>s.replace(/C{n,}/g, r)\<close> for a character class \<open>C\<close>: scanning from the left, every
  maximal run of at least \<open>n\<close> characters of the class is replaced by \<open>r\<close>; a shorter run
  is copied. (\<open>n\<close> is at least 1 at every use.)
\<close>

function replaceRuns :: "nat \<Rightarrow> (nat \<Rightarrow> bool) \<Rightarrow> jsstring \<Rightarrow> jsstring \<Rightarrow> jsstring" where
  "replaceRuns n P r [] = []"
| "replaceRuns n P r (c # cs) =
     (if P c \<and> n \<le> length (takeWhile P (c # cs))
      then r @ replaceRuns n P r (dropWhile P cs)
      else c # replaceRuns n P r cs)"
  by pat_completeness auto
termination
  by (relation "measure (\<lambda>(n, P, r, s). length s)") (auto simp: length_dropWhile_le less_Suc_eq_le)

text \<open>\<^verbatim>\<open>a.join(sep)\<close> on an array of strings.\<close>

fun join :: "jsstring \<Rightarrow> jsstring list \<Rightarrow> jsstring" where
  "join sep [] = []"
| "join sep [x] = x"
| "join sep (x # y # ys) = x @ sep @ join sep (y # ys)"

text \<open>The decimal digits of a number, as a template literal \<^verbatim>\<open>`${n}`\<close> prints them.\<close>

function natToString :: "nat \<Rightarrow> jsstring" where
  "natToString n = (if n < 10 then [48 + n] else natToString (n div 10) @ [48 + n mod 10])"
  by pat_completeness auto
termination
  by (relation "measure id") auto

section \<open>Regular expressions\<close>

text \<open>
  The fragment of JavaScript's regular expressions the importer uses, with a backtracking
  matcher. A match state is the code unit before the current position (none at the start
  of the input) and the rest of the input; \<open>rmatch\<close> lists the states a pattern can end
  in, in the order backtracking tries them (greedy quantifiers take the longest run first).
\<close>

datatype atom = Ch nat | Range nat nat | Space

datatype rx =
    Lit jsstring
  | Set "atom list"
  | Many nat "atom list"
  | Seq rx rx
  | Alt rx rx
  | Opt rx
  | Bol
  | Eol
  | WordB

datatype regex = Regex rx bool

type_synonym mstate = "nat option \<times> jsstring"

text \<open>
  With the \<^verbatim>\<open>i\<close> flag (and no \<^verbatim>\<open>u\<close> flag) two code units match when their
  canonical forms are equal: the upper-case form, except that a code unit from 128 up is
  never mapped into ASCII. Every pattern character of the importer is an ASCII character,
  a white-space character or a dash, so only the ASCII letters are folded.
\<close>

definition chMatch :: "bool \<Rightarrow> nat \<Rightarrow> nat \<Rightarrow> bool" where
  "chMatch ic a c = (if ic then upperUnit a = upperUnit c else a = c)"

fun atomMatch :: "bool \<Rightarrow> atom \<Rightarrow> nat \<Rightarrow> bool" where
  "atomMatch ic (Ch a) c = chMatch ic a c"
| "atomMatch ic (Range a b) c = list_ex (\<lambda>x. chMatch ic x c) [a..<Suc b]"
| "atomMatch ic Space c = isSpace c"

definition setMatch :: "bool \<Rightarrow> atom list \<Rightarrow> nat \<Rightarrow> bool" where
  "setMatch ic as c = list_ex (\<lambda>a. atomMatch ic a c) as"

fun litMatch :: "bool \<Rightarrow> jsstring \<Rightarrow> mstate \<Rightarrow> mstate list" where
  "litMatch ic [] st = [st]"
| "litMatch ic (a # as) (p, []) = []"
| "litMatch ic (a # as) (p, c # cs) = (if chMatch ic a c then litMatch ic as (Some c, cs) else [])"

text \<open>The states after 0, 1, 2, ... characters of a run of the class.\<close>

fun runStates :: "(nat \<Rightarrow> bool) \<Rightarrow> mstate \<Rightarrow> mstate list" where
  "runStates P (p, []) = [(p, [])]"
| "runStates P (p, c # cs) = (p, c # cs) # (if P c then runStates P (Some c, cs) else [])"

definition isWordBefore :: "nat option \<Rightarrow> bool" where
  "isWordBefore p = (case p of None \<Rightarrow> False | Some c \<Rightarrow> isWordChar c)"

definition isWordAfter :: "jsstring \<Rightarrow> bool" where
  "isWordAfter cs = (case cs of [] \<Rightarrow> False | c # _ \<Rightarrow> isWordChar c)"

fun rmatch :: "bool \<Rightarrow> rx \<Rightarrow> mstate \<Rightarrow> mstate list" where
  "rmatch ic (Lit as) st = litMatch ic as st"
| "rmatch ic (Set as) (p, []) = []"
| "rmatch ic (Set as) (p, c # cs) = (if setMatch ic as c then [(Some c, cs)] else [])"
| "rmatch ic (Many n as) st = rev (drop n (runStates (setMatch ic as) st))"
| "rmatch ic (Seq a b) st = concat (map (rmatch ic b) (rmatch ic a st))"
| "rmatch ic (Alt a b) st = rmatch ic a st @ rmatch ic b st"
| "rmatch ic (Opt a) st = rmatch ic a st @ [st]"
| "rmatch ic Bol (p, cs) = (if p = None then [(p, cs)] else [])"
| "rmatch ic Eol (p, cs) = (if cs = [] then [(p, cs)] else [])"
| "rmatch ic WordB (p, cs) = (if isWordBefore p \<noteq> isWordAfter cs then [(p, cs)] else [])"

text \<open>\<^verbatim>\<open>re.test(s)\<close> for a pattern without the \<^verbatim>\<open>g\<close> flag: a match may start at any index.\<close>

fun search :: "bool \<Rightarrow> rx \<Rightarrow> mstate \<Rightarrow> bool" where
  "search ic r (p, []) = (rmatch ic r (p, []) \<noteq> [])"
| "search ic r (p, c # cs) = (rmatch ic r (p, c # cs) \<noteq> [] \<or> search ic r (Some c, cs))"

fun test :: "regex \<Rightarrow> jsstring \<Rightarrow> bool" where
  "test (Regex r ic) s = search ic r (None, s)"

definition seqs :: "rx list \<Rightarrow> rx" where
  "seqs rs = foldr Seq rs (Lit [])"

fun alts :: "rx list \<Rightarrow> rx" where
  "alts [] = Set []"
| "alts [r] = r"
| "alts (r # rs) = Alt r (alts rs)"

section \<open>importer.js: heading classification\<close>

text \<open>
  The separator tail that ends the three heading patterns, a starred class of white space,
  colon, hyphen, en dash (U+2013) and em dash (U+2014).
\<close>

definition sepTail :: rx where
  "sepTail = Many 0 [Space, Ch 58, Ch 45, Ch 8211, Ch 8212]"

definition digitsTok :: rx where
  "digitsTok = Many 1 [Range 48 57]"

definition romanTok :: rx where
  "romanTok = Many 1 (map Ch (js ''ivxlcdm''))"

definition CHAPTER_RE :: regex where
  "CHAPTER_RE = Regex (seqs
     [Bol,
      Alt (Lit (js ''chapter'')) (Seq (Lit (js ''chap'')) (Opt (Lit (js ''.'')))),
      Many 1 [Space],
      alts ([digitsTok, romanTok] @ map (\<lambda>w. Lit (js w))
        [''one'', ''two'', ''three'', ''four'', ''five'', ''six'', ''seven'', ''eight'', ''nine'',
         ''ten'', ''eleven'', ''twelve'']),
      WordB,
      sepTail]) True"

definition PART_RE :: regex where
  "PART_RE = Regex (seqs
     [Bol,
      Lit (js ''part''),
      Many 1 [Space],
      alts ([digitsTok, romanTok] @ map (\<lambda>w. Lit (js w))
        [''one'', ''two'', ''three'', ''four'', ''five'', ''six'', ''seven'', ''eight'', ''nine'',
         ''ten'']),
      WordB,
      sepTail]) True"

definition FRONT_RE :: regex where
  "FRONT_RE = Regex (seqs
     [Bol,
      alts (map (\<lambda>w. Lit (js w)) [''prologue'', ''epilogue'', ''preface'', ''foreword'', ''afterword'']),
      WordB,
      sepTail]) True"

text \<open>\<^verbatim>\<open>/heading\s*([12])/\<close>, \<^verbatim>\<open>/heading\s*1/\<close> and \<^verbatim>\<open>/[.!?]$/\<close>, written inline in the source.\<close>

definition HEADING12_RE :: regex where
  "HEADING12_RE = Regex (seqs [Lit (js ''heading''), Many 0 [Space], Set [Ch 49, Ch 50]]) False"

definition HEADING1_RE :: regex where
  "HEADING1_RE = Regex (seqs [Lit (js ''heading''), Many 0 [Space], Lit (js ''1'')]) False"

definition ENDPUNCT_RE :: regex where
  "ENDPUNCT_RE = Regex (seqs [Set [Ch 46, Ch 33, Ch 63], Eol]) False"

definition clean :: "jsstring \<Rightarrow> jsstring" where
  "clean str = trim (replaceRuns 1 isSpace (js '' '') str)"

definition isUpperAZ :: "nat \<Rightarrow> bool" where
  "isUpperAZ c = (65 \<le> c \<and> c \<le> 90)"

definition isAllCapsShort :: "(jsstring \<Rightarrow> jsstring) \<Rightarrow> jsstring \<Rightarrow> bool" where
  "isAllCapsShort upperTable s =
     (let t = clean s in
      if t = [] then False
      else if length t > 44 then False
      else (let letters = filter isUpperAZ t
            in length letters \<ge> 6 \<and> t = toUpperCase upperTable t))"

definition isStyleHeading :: "jsstring \<Rightarrow> bool" where
  "isStyleHeading style = (let s = toLowerCase style in test HEADING12_RE s \<or> s = js ''title'')"

definition isHeadingLike :: "(jsstring \<Rightarrow> jsstring) \<Rightarrow> jsstring \<Rightarrow> jsstring \<Rightarrow> bool" where
  "isHeadingLike upperTable txt style =
     (let t = clean txt in
      if t = [] then False
      else isStyleHeading style \<or> test CHAPTER_RE t \<or> test PART_RE t \<or> test FRONT_RE t
           \<or> isAllCapsShort upperTable t)"

text \<open>\<^verbatim>\<open>a || b\<close> on strings: the empty string is falsy.\<close>

definition orElse :: "jsstring \<Rightarrow> jsstring \<Rightarrow> jsstring" where
  "orElse a b = (if a = [] then b else a)"

text \<open>
  \<^verbatim>\<open>(name || "Untitled Novel").replace(/\.[^.]+$/, "")\<close>: the last dot and what follows it are
  removed when at least one character follows that dot.
\<close>

definition stripExtension :: "jsstring \<Rightarrow> jsstring" where
  "stripExtension s =
     (let ext = takeWhile (\<lambda>c. c \<noteq> 46) (rev s)
      in if ext \<noteq> [] \<and> length ext < length s then take (length s - length ext - 1) s else s)"

definition filenameToTitle :: "jsstring \<Rightarrow> jsstring" where
  "filenameToTitle name =
     (let base = stripExtension (orElse name (js ''Untitled Novel''))
      in orElse (clean base) (js ''Untitled Novel''))"

section \<open>importer.js: compiling body text into a document\<close>

text \<open>
  A node of the editor's JSON document: its \<^verbatim>\<open>type\<close>, and the optional \<^verbatim>\<open>text\<close> and
  \<^verbatim>\<open>content\<close> properties.
\<close>

datatype node = Node (ntype: string) (ntext: "jsstring option") (ncontent: "node list option")

text \<open>\<^verbatim>\<open>s.split("\n")\<close>: every occurrence of the separator character ends a piece.\<close>

function splitOn :: "nat \<Rightarrow> jsstring \<Rightarrow> jsstring list" where
  "splitOn sep s =
     (case dropWhile (\<lambda>c. c \<noteq> sep) s of
        [] \<Rightarrow> [s]
      | _ # r \<Rightarrow> takeWhile (\<lambda>c. c \<noteq> sep) s # splitOn sep r)"
  by pat_completeness auto
termination
proof (relation "measure (\<lambda>(sep, s). length s)")
  show "wf (measure (\<lambda>(sep, s). length s))" by simp
next
  fix sep :: nat and s x r
  assume "dropWhile (\<lambda>c. c \<noteq> sep) s = x # r"
  then have "length (x # r) \<le> length s"
    by (metis length_dropWhile_le)
  then show "((sep, r), (sep, s)) \<in> measure (\<lambda>(sep, s). length s)" by simp
qed

declare splitOn.simps [simp del]

text \<open>
  \<^verbatim>\<open>s.split(/C{n,}/)\<close> for a character class \<open>C\<close>: every maximal run of at least \<open>n\<close>
  characters of the class separates two pieces; \<open>cur\<close> is the piece being read.
\<close>

function splitRuns :: "nat \<Rightarrow> (nat \<Rightarrow> bool) \<Rightarrow> jsstring \<Rightarrow> jsstring \<Rightarrow> jsstring list" where
  "splitRuns n P cur [] = [cur]"
| "splitRuns n P cur (c # cs) =
     (if P c \<and> n \<le> length (takeWhile P (c # cs))
      then cur # splitRuns n P [] (dropWhile P cs)
      else splitRuns n P (cur @ [c]) cs)"
  by pat_completeness auto
termination
  by (relation "measure (\<lambda>(n, P, cur, s). length s)") (auto simp: length_dropWhile_le less_Suc_eq_le)

definition textNode :: "jsstring \<Rightarrow> node" where
  "textNode t = Node ''text'' (Some t) None"

definition hardBreak :: node where
  "hardBreak = Node ''hardBreak'' None None"

text \<open>The loop of \<^verbatim>\<open>paragraphToTiptap\<close>: a text node for a non-empty line, a hard break after every line but the last.\<close>

fun lineNodes :: "jsstring list \<Rightarrow> node list" where
  "lineNodes [] = []"
| "lineNodes [t] = (if t \<noteq> [] then [textNode t] else [])"
| "lineNodes (t # u # us) = (if t \<noteq> [] then [textNode t] else []) @ [hardBreak] @ lineNodes (u # us)"

definition paragraphToTiptap :: "jsstring \<Rightarrow> node" where
  "paragraphToTiptap par =
     (let lines = splitOn 10 par;
          content = lineNodes lines
      in Node ''paragraph'' None (Some (if content \<noteq> [] then content else [textNode []])))"

text \<open>\<^verbatim>\<open>.replace(/\r\n/g, "\n")\<close> and \<^verbatim>\<open>.replace(/\r/g, "\n")\<close>.\<close>

fun crlfToLf :: "jsstring \<Rightarrow> jsstring" where
  "crlfToLf [] = []"
| "crlfToLf [c] = [c]"
| "crlfToLf (c # d # cs) = (if c = 13 \<and> d = 10 then 10 # crlfToLf cs else c # crlfToLf (d # cs))"

definition crToLf :: "jsstring \<Rightarrow> jsstring" where
  "crToLf s = map (\<lambda>c. if c = 13 then 10 else c) s"

definition isNewline :: "nat \<Rightarrow> bool" where
  "isNewline c = (c = 10)"

definition textToDoc :: "jsstring \<Rightarrow> node" where
  "textToDoc txt =
     (let raw = crToLf (crlfToLf txt);
          blocks = filter (\<lambda>b. b \<noteq> []) (map trim (splitRuns 2 isNewline [] raw));
          content = (if blocks \<noteq> [] then map paragraphToTiptap blocks else [Node ''paragraph'' None None])
      in Node ''doc'' None (Some content))"

section \<open>editor.js: plain-text projection\<close>

text \<open>
  \<^verbatim>\<open>walk\<close> appends to the local array \<^verbatim>\<open>lines\<close>, which is passed through here; the
  document is only read. A node is never \<^verbatim>\<open>null\<close> in this type, so the first line of
  \<^verbatim>\<open>walk\<close> has no counterpart.
\<close>

fun walk :: "node \<Rightarrow> jsstring list \<Rightarrow> jsstring list" where
  "walk (Node ty tx ct) lines =
     (if ty = ''text'' then lines @ [case tx of None \<Rightarrow> [] | Some t \<Rightarrow> t]
      else
        (let l1 = (if ty = ''paragraph'' then lines @ [[10]] else lines);
             l2 = (if ty = ''hardBreak'' then l1 @ [[10]] else l1);
             l3 = (case ct of None \<Rightarrow> l2 | Some ns \<Rightarrow> fold walk ns l2);
             l4 = (if ty = ''heading'' \<or> ty = ''blockquote'' then l3 @ [[10]] else l3)
         in if ty = ''listItem'' then l4 @ [[10]] else l4))"

definition editorToPlainText :: "node \<Rightarrow> jsstring" where
  "editorToPlainText jsonDoc = trim (replaceRuns 3 isNewline [10, 10] (concat (walk jsonDoc [])))"

section \<open>importer.js: segmentation into chapters\<close>

record rawParagraph =
  ptext :: jsstring
  pstyle :: jsstring

record draft =
  dtitle :: jsstring
  body :: "jsstring list"

record importedChapter =
  title :: jsstring
  doc :: node

record importResult =
  novelTitle :: jsstring
  chapters :: "importedChapter list"

text \<open>The template literal \<^verbatim>\<open>`Chapter ${n}`\<close>.\<close>

definition chapterN :: "nat \<Rightarrow> jsstring" where
  "chapterN n = js ''Chapter '' @ natToString n"

text \<open>The first statement: the paragraphs whose cleaned text is not empty.\<close>

definition usableParagraphs :: "rawParagraph list \<Rightarrow> rawParagraph list" where
  "usableParagraphs paragraphs = filter (\<lambda>p. clean (ptext p) \<noteq> []) paragraphs"

text \<open>
  Title detection: the novel title and the paragraphs left after it. \<^verbatim>\<open>paras.shift()\<close>
  removes the first paragraph, and the \<^verbatim>\<open>while\<close> loop the blank ones that follow it.
\<close>

definition titleCondition :: "rawParagraph \<Rightarrow> bool" where
  "titleCondition first =
     (let t = clean (ptext first);
          st = toLowerCase (pstyle first)
      in t \<noteq> [] \<and> length t \<le> 80 \<and> \<not> test CHAPTER_RE t \<and> \<not> test PART_RE t \<and> \<not> test FRONT_RE t
         \<and> (st = js ''title'' \<or> test HEADING1_RE st))"

definition titleDetection :: "jsstring \<Rightarrow> rawParagraph list \<Rightarrow> jsstring \<times> rawParagraph list" where
  "titleDetection fallbackTitle paras =
     (let novelTitle = orElse fallbackTitle (js ''Untitled Novel'')
      in case paras of
           [] \<Rightarrow> (novelTitle, paras)
         | first # rest \<Rightarrow>
             if titleCondition first
             then (clean (ptext first), dropWhile (\<lambda>p. clean (ptext p) = []) rest)
             else (novelTitle, paras))"

text \<open>\<^verbatim>\<open>pushCurrent\<close>: the chapter list after the current draft, if there is one, is committed.\<close>

definition pushCurrent :: "importedChapter list \<Rightarrow> draft option \<Rightarrow> importedChapter list" where
  "pushCurrent chs current =
     (case current of
        None \<Rightarrow> chs
      | Some d \<Rightarrow>
          chs @ [\<lparr>title = orElse (clean (dtitle d)) (chapterN (length chs + 1)),
                  doc = textToDoc (trim (join [10, 10] (body d)))\<rparr>])"

definition matchesStructure :: "jsstring \<Rightarrow> bool" where
  "matchesStructure t = (test CHAPTER_RE t \<or> test PART_RE t \<or> test FRONT_RE t)"

text \<open>One iteration of the main loop, on the committed chapters and the current draft.\<close>

definition loopStep ::
  "(jsstring \<Rightarrow> jsstring) \<Rightarrow> importedChapter list \<times> draft option \<Rightarrow> rawParagraph
   \<Rightarrow> importedChapter list \<times> draft option" where
  "loopStep upperTable st p =
     (let chs = fst st; current = snd st; t = ptext p
      in if isHeadingLike upperTable t (pstyle p)
         then (pushCurrent chs current, Some \<lparr>dtitle = t, body = []\<rparr>)
         else
           (let cur = (case current of
                         None \<Rightarrow> \<lparr>dtitle = chapterN (length chs + 1), body = []\<rparr>
                       | Some d \<Rightarrow> d);
                curT = clean (dtitle cur);
                nextT = clean t
            in if body cur = [] \<and> nextT \<noteq> [] \<and> length nextT \<le> 60 \<and> \<not> test ENDPUNCT_RE nextT
                  \<and> matchesStructure curT
               then (chs, Some (cur\<lparr>dtitle := curT @ js '': '' @ nextT\<rparr>))
               else (chs, Some (cur\<lparr>body := body cur @ [t]\<rparr>))))"

definition splitFromParagraphs ::
  "(jsstring \<Rightarrow> jsstring) \<Rightarrow> rawParagraph list \<Rightarrow> jsstring \<Rightarrow> importResult" where
  "splitFromParagraphs upperTable paragraphs fallbackTitle =
     (let (novelTitle, paras) = titleDetection fallbackTitle (usableParagraphs paragraphs);
          (chs, current) = foldl (loopStep upperTable) ([], None) paras;
          pushed = pushCurrent chs current;
          chapters = (if pushed = []
                      then [\<lparr>title = js ''Chapter 1'', doc = textToDoc (join [10, 10] (map ptext paras))\<rparr>]
                      else pushed);
          cleaned = map (\<lambda>(i, c). \<lparr>title = orElse (clean (title c)) (chapterN (i + 1)), doc = doc c\<rparr>)
                      (enumerate 0 chapters)
      in \<lparr>novelTitle = novelTitle, chapters = cleaned\<rparr>)"

section \<open>importer.js: the import entry point\<close>

record importFile =
  fname :: jsstring
  ftype :: jsstring
  fdata :: "nat list"

datatype importError = NoFileSelected | UnsupportedFileType | DecodeError jsstring

datatype decoder = RTF | DOCX

text \<open>\<^verbatim>\<open>s.includes(sub)\<close>.\<close>

fun includesStr :: "jsstring \<Rightarrow> jsstring \<Rightarrow> bool" where
  "includesStr [] sub = (sub = [])"
| "includesStr (c # cs) sub = (take (length sub) (c # cs) = sub \<or> includesStr cs sub)"

text \<open>\<^verbatim>\<open>(name.split(".").pop() || "").toLowerCase()\<close>.\<close>

definition extension :: "jsstring \<Rightarrow> jsstring" where
  "extension name = toLowerCase (orElse (last (splitOn 46 name)) [])"

text \<open>
  The extension of a file name in the usual sense, for comparison with the value the code
  computes: what follows the last dot of the name, and none when the name has no dot. The
  pattern \<^verbatim>\<open>/\.[^.]+$/\<close> of \<^verbatim>\<open>filenameToTitle\<close> removes a suffix under the same reading.
\<close>

definition filenameExtension :: "jsstring \<Rightarrow> jsstring option" where
  "filenameExtension name =
     (if 46 \<in> set name then Some (rev (takeWhile (\<lambda>c. c \<noteq> 46) (rev name))) else None)"

text \<open>
  \<^verbatim>\<open>parseRTF\<close> and \<^verbatim>\<open>parseDOCX\<close> read the file through the browser (\<^verbatim>\<open>file.text()\<close>, JSZip,
  DOMParser); they are parameters here. The result is paired with the decoders that were
  called, in order; a rejected promise is an error value.
\<close>

definition parseImportFile ::
  "(jsstring \<Rightarrow> jsstring)
   \<Rightarrow> (importFile \<Rightarrow> importError + rawParagraph list) \<Rightarrow> (importFile \<Rightarrow> importError + rawParagraph list)
   \<Rightarrow> importFile option \<Rightarrow> decoder list \<times> (importError + importResult)" where
  "parseImportFile upperTable parseRTF parseDOCX fileOpt =
     (case fileOpt of
        None \<Rightarrow> ([], Inl NoFileSelected)
      | Some f \<Rightarrow>
          (let name = orElse (fname f) (js ''Imported'');
               fallbackTitle = filenameToTitle name;
               ext = extension name
           in if ext = js ''rtf'' \<or> includesStr (ftype f) (js ''rtf'')
              then ([RTF], case parseRTF f of
                             Inl e \<Rightarrow> Inl e
                           | Inr paragraphs \<Rightarrow> Inr (splitFromParagraphs upperTable paragraphs fallbackTitle))
              else if ext = js ''docx'' \<or> includesStr (ftype f) (js ''officedocument'')
              then ([DOCX], case parseDOCX f of
                              Inl e \<Rightarrow> Inl e
                            | Inr paragraphs \<Rightarrow> Inr (splitFromParagraphs upperTable paragraphs fallbackTitle))
              else ([], Inl UnsupportedFileType)))"

section \<open>Auxiliary notions for the statements\<close>

text \<open>The code unit before the position reached after reading \<open>w\<close> from a state with \<open>p\<close> before it.\<close>

definition lastUnit :: "nat option \<Rightarrow> jsstring \<Rightarrow> nat option" where
  "lastUnit p w = (if w = [] then p else Some (last w))"

text \<open>
  The token after the chapter keyword, as the specification words it: digits, a roman
  numeral over the letters i, v, x, l, c, d, m, or a number word from one to twelve, in
  either case.
\<close>

definition isChapterToken :: "jsstring \<Rightarrow> bool" where
  "isChapterToken tok =
     (tok \<noteq> [] \<and>
      (list_all (\<lambda>c. 48 \<le> c \<and> c \<le> 57) tok
       \<or> list_all (\<lambda>c. lowerUnit c \<in> set (js ''ivxlcdm'')) tok
       \<or> toLowerCase tok \<in> set (map js [''one'', ''two'', ''three'', ''four'', ''five'', ''six'',
            ''seven'', ''eight'', ''nine'', ''ten'', ''eleven'', ''twelve''])))"

text \<open>
  The words of a string: its maximal runs of characters that are not white space. Two
  strings have the same words exactly when \<open>clean\<close> maps them to the same string.
\<close>

function tokens :: "jsstring \<Rightarrow> jsstring list" where
  "tokens [] = []"
| "tokens (c # cs) =
     (if isSpace c then tokens cs
      else (c # takeWhile (\<lambda>x. \<not> isSpace x) cs) # tokens (dropWhile (\<lambda>x. \<not> isSpace x) cs))"
  by pat_completeness auto
termination
  by (relation "measure length") (auto simp: length_dropWhile_le less_Suc_eq_le)

definition startsWord :: "jsstring \<Rightarrow> bool" where
  "startsWord s = (case s of [] \<Rightarrow> False | c # _ \<Rightarrow> \<not> isSpace c)"

text \<open>The paragraph blocks \<open>textToDoc\<close> compiles.\<close>

definition blocksOf :: "jsstring \<Rightarrow> jsstring list" where
  "blocksOf b = filter (\<lambda>b. b \<noteq> []) (map trim (splitRuns 2 isNewline [] (crToLf (crlfToLf b))))"

text \<open>
  A string without two adjacent line feeds, and the shape of a block of \<open>blocksOf\<close>: not
  empty, no white space at either end, no two adjacent line feeds, no carriage return.
\<close>

fun noDouble :: "jsstring \<Rightarrow> bool" where
  "noDouble [] = True"
| "noDouble [c] = True"
| "noDouble (c # d # cs) = (\<not> (c = 10 \<and> d = 10) \<and> noDouble (d # cs))"

definition goodBlock :: "jsstring \<Rightarrow> bool" where
  "goodBlock x = (x \<noteq> [] \<and> \<not> isSpace (hd x) \<and> \<not> isSpace (last x) \<and> noDouble x \<and> 13 \<notin> set x)"

section \<open>Properties of the matcher\<close>

lemma lastUnit_Nil [simp]: "lastUnit p [] = p"
  by (simp add: lastUnit_def)

lemma lastUnit_Cons [simp]: "lastUnit p (c # w) = lastUnit (Some c) w"
  by (simp add: lastUnit_def)

lemma lastUnit_append [simp]: "lastUnit p (u @ w) = lastUnit (lastUnit p u) w"
  by (induction u arbitrary: p) simp_all

lemma lower_upper_unit: "lowerUnit c = a \<Longrightarrow> upperUnit a = upperUnit c"
  by (auto simp: lowerUnit_def upperUnit_def split: if_splits)

lemma chMatch_refl [simp]: "chMatch ic c c"
  by (simp add: chMatch_def)

lemma chMatch_lower: "chMatch True (lowerUnit c) c"
  by (simp add: chMatch_def lower_upper_unit)

lemma lit_lower: "toLowerCase w = a \<Longrightarrow> list_all2 (chMatch True) a w"
  by (auto simp: toLowerCase_def list_all2_conv_all_nth chMatch_lower)

lemma litMatch_append:
  "list_all2 (chMatch ic) as w \<Longrightarrow> litMatch ic as (p, w @ r) = [(lastUnit p w, r)]"
proof (induction as arbitrary: w p)
  case Nil
  then show ?case by simp
next
  case (Cons a as)
  then obtain c cs where w: "w = c # cs" and a: "chMatch ic a c" and rest: "list_all2 (chMatch ic) as cs"
    by (auto simp: list_all2_Cons1)
  show ?case using Cons.IH [OF rest] a by (simp add: w)
qed

lemma runStates_nth:
  "\<forall>c\<in>set w. P c \<Longrightarrow>
     length w < length (runStates P (p, w @ r)) \<and> runStates P (p, w @ r) ! length w = (lastUnit p w, r)"
proof (induction w arbitrary: p)
  case Nil
  then show ?case by (cases r) simp_all
next
  case (Cons c w)
  then show ?case by simp
qed

lemma many_mem:
  assumes "n \<le> length w" and "\<forall>c\<in>set w. setMatch ic as c"
  shows "(lastUnit p w, r) \<in> set (rmatch ic (Many n as) (p, w @ r))"
proof -
  let ?rs = "runStates (setMatch ic as) (p, w @ r)"
  from runStates_nth [OF assms(2)] have len: "length w < length ?rs" and nth: "?rs ! length w = (lastUnit p w, r)"
    by blast+
  have "drop n ?rs ! (length w - n) = (lastUnit p w, r)"
    using assms(1) len nth by simp
  moreover have "length w - n < length (drop n ?rs)"
    using assms(1) len by simp
  ultimately have "(lastUnit p w, r) \<in> set (drop n ?rs)"
    by (metis nth_mem)
  then show ?thesis by simp
qed

lemma seq_mem:
  "st' \<in> set (rmatch ic a st) \<Longrightarrow> st'' \<in> set (rmatch ic b st') \<Longrightarrow> st'' \<in> set (rmatch ic (Seq a b) st)"
  by auto

lemma rmatch_Set_Nil [simp]: "rmatch ic (Set []) st = []"
proof (cases st)
  case (Pair p cs)
  then show ?thesis by (cases cs) (simp_all add: setMatch_def)
qed

lemma alts_set: "set (rmatch ic (alts rs) st) = (\<Union>r\<in>set rs. set (rmatch ic r st))"
  by (induction rs rule: alts.induct) auto

lemma search_here: "rmatch ic r st \<noteq> [] \<Longrightarrow> search ic r st"
  by (cases st; cases "snd st") auto

lemma search_append: "rmatch ic r (lastUnit p pre, suf) \<noteq> [] \<Longrightarrow> search ic r (p, pre @ suf)"
proof (induction pre arbitrary: p)
  case Nil
  then show ?case by (simp add: search_here)
next
  case (Cons c pre)
  then show ?case by simp
qed

lemma isWordChar_lower: "isWordChar (lowerUnit c) \<Longrightarrow> isWordChar c"
  by (auto simp: isWordChar_def lowerUnit_def split: if_splits)

lemma range_atomMatch: "a \<le> c \<Longrightarrow> c \<le> b \<Longrightarrow> atomMatch ic (Range a b) c"
  unfolding atomMatch.simps list_ex_iff by (rule bexI [of _ c]) (simp_all only: chMatch_refl set_upt atLeastLessThan_iff less_Suc_eq_le simp_thms)

lemma digit_setMatch: "48 \<le> c \<Longrightarrow> c \<le> 57 \<Longrightarrow> setMatch ic [Range 48 57] c"
  unfolding setMatch_def list_ex_iff by (rule bexI [of _ "Range 48 57"]) (simp_all only: range_atomMatch list.set insert_iff simp_thms)

lemma roman_setMatch: "lowerUnit c \<in> set (js ''ivxlcdm'') \<Longrightarrow> setMatch True (map Ch (js ''ivxlcdm'')) c"
  unfolding setMatch_def list_ex_iff
  by (rule bexI [of _ "Ch (lowerUnit c)"]) (simp_all add: chMatch_lower)

lemma last_lower: "w \<noteq> [] \<Longrightarrow> lowerUnit (last w) = last (toLowerCase w)"
  by (simp add: toLowerCase_def last_map)

lemma token_match:
  assumes "isChapterToken tok"
  shows "(Some (last tok), r) \<in> set (rmatch True (alts ([digitsTok, romanTok] @ map (\<lambda>w. Lit (js w))
        [''one'', ''two'', ''three'', ''four'', ''five'', ''six'', ''seven'', ''eight'', ''nine'',
         ''ten'', ''eleven'', ''twelve''])) (p, tok @ r)) \<and> isWordChar (last tok)"
proof -
  from assms have ne: "tok \<noteq> []" by (simp add: isChapterToken_def)
  then have lu: "lastUnit p tok = Some (last tok)" by (simp add: lastUnit_def)
  have len: "1 \<le> length tok" using ne by (cases tok) simp_all
  consider (d) "list_all (\<lambda>c. 48 \<le> c \<and> c \<le> 57) tok"
    | (r) "list_all (\<lambda>c. lowerUnit c \<in> set (js ''ivxlcdm'')) tok"
    | (w) "toLowerCase tok \<in> set (map js [''one'', ''two'', ''three'', ''four'', ''five'', ''six'',
            ''seven'', ''eight'', ''nine'', ''ten'', ''eleven'', ''twelve''])"
    using assms by (auto simp: isChapterToken_def)
  then show ?thesis
  proof cases
    case d
    then have all: "\<forall>c\<in>set tok. setMatch True [Range 48 57] c"
      by (auto simp: list_all_iff intro: digit_setMatch)
    have "(lastUnit p tok, r) \<in> set (rmatch True digitsTok (p, tok @ r))"
      unfolding digitsTok_def by (rule many_mem [OF len all])
    moreover have "isWordChar (last tok)"
      using d ne by (auto simp: list_all_iff isWordChar_def)
    ultimately show ?thesis by (simp add: alts_set lu)
  next
    case r
    then have all: "\<forall>c\<in>set tok. setMatch True (map Ch (js ''ivxlcdm'')) c"
      by (auto simp: list_all_iff intro: roman_setMatch)
    have "(lastUnit p tok, r) \<in> set (rmatch True romanTok (p, tok @ r))"
      unfolding romanTok_def by (rule many_mem [OF len all])
    moreover have "lowerUnit (last tok) \<in> set (js ''ivxlcdm'')"
      using r ne by (auto simp: list_all_iff)
    then have "isWordChar (lowerUnit (last tok))"
      by (auto simp: js_def isWordChar_def)
    then have "isWordChar (last tok)" by (rule isWordChar_lower)
    ultimately show ?thesis by (simp add: alts_set lu)
  next
    case w
    then obtain s where s: "s \<in> set [''one'', ''two'', ''three'', ''four'', ''five'', ''six'',
            ''seven'', ''eight'', ''nine'', ''ten'', ''eleven'', ''twelve'']" and low: "toLowerCase tok = js s"
      by auto
    have "litMatch True (js s) (p, tok @ r) = [(lastUnit p tok, r)]"
      by (rule litMatch_append [OF lit_lower [OF low]])
    then have "(lastUnit p tok, r) \<in> set (rmatch True (Lit (js s)) (p, tok @ r))" by simp
    moreover have "isWordChar (last (js s))"
      using s by (auto simp: js_def isWordChar_def)
    then have "isWordChar (lowerUnit (last tok))"
      using low last_lower [OF ne] by simp
    then have "isWordChar (last tok)" by (rule isWordChar_lower)
    ultimately show ?thesis using s unfolding alts_set lu by simp blast
  qed
qed

lemma keyword_match:
  assumes "toLowerCase kw = js ''chapter'' \<or> toLowerCase kw = js ''chap.''"
  shows "(lastUnit p kw, r) \<in> set (rmatch True
     (Alt (Lit (js ''chapter'')) (Seq (Lit (js ''chap'')) (Opt (Lit (js ''.''))))) (p, kw @ r))"
  using assms
proof
  assume "toLowerCase kw = js ''chapter''"
  then have "litMatch True (js ''chapter'') (p, kw @ r) = [(lastUnit p kw, r)]"
    by (intro litMatch_append lit_lower)
  then show ?thesis by simp
next
  assume low: "toLowerCase kw = js ''chap.''"
  then have "length (toLowerCase kw) = length (js ''chap.'')" by simp
  then have "length kw = 5" by (simp add: toLowerCase_def js_def)
  define k1 where "k1 = take 4 kw"
  define k2 where "k2 = drop 4 kw"
  have kw: "kw = k1 @ k2" by (simp add: k1_def k2_def)
  have l1: "toLowerCase k1 = js ''chap''"
    using low by (simp add: k1_def toLowerCase_def js_def take_map [symmetric])
  have l2: "toLowerCase k2 = js ''.''"
    using low by (simp add: k2_def toLowerCase_def js_def drop_map [symmetric])
  have m1: "litMatch True (js ''chap'') (p, k1 @ k2 @ r) = [(lastUnit p k1, k2 @ r)]"
    by (intro litMatch_append lit_lower l1)
  have m2: "litMatch True (js ''.'') (lastUnit p k1, k2 @ r) = [(lastUnit (lastUnit p k1) k2, r)]"
    by (intro litMatch_append lit_lower l2)
  show ?thesis using m1 m2 by (simp add: kw)
qed

lemma replaceRuns_all:
  assumes "\<forall>c\<in>set s. P c" and "s \<noteq> []" and "n \<le> length s"
  shows "replaceRuns n P r s = r"
proof -
  obtain c cs where s: "s = c # cs" using assms(2) by (cases s) auto
  have c: "P c" and tw: "takeWhile P cs = cs" and dw: "dropWhile P cs = []"
    using assms(1) s by (simp_all add: takeWhile_eq_all_conv)
  show ?thesis using assms(3) by (simp add: s c tw dw)
qed

lemma clean_all_space: "\<forall>c\<in>set s. isSpace c \<Longrightarrow> clean s = []"
proof (cases "s = []")
  case True
  then show ?thesis by (simp add: clean_def trim_def)
next
  case False
  assume "\<forall>c\<in>set s. isSpace c"
  then have "replaceRuns 1 isSpace (js '' '') s = js '' ''"
    using False by (intro replaceRuns_all) (simp_all add: Suc_le_eq)
  then show ?thesis by (simp add: clean_def trim_def js_def isSpace_def)
qed

section \<open>The heading classifier\<close>

text \<open>
  Claim C7: whatever the style hint is, a text that normalizes to the empty string (it is
  empty or consists of white space only) is not heading-like.
\<close>

theorem blank_text_not_heading:
  "clean txt = [] \<or> list_all isSpace txt \<Longrightarrow> \<not> isHeadingLike upperTable txt style"
  by (auto simp: isHeadingLike_def list_all_iff clean_all_space)

theorem blank_text_not_heading_witness:
  "clean (js ''  '') = [] \<and> \<not> isHeadingLike latin1Upper (js ''  '') (js ''Title'')
   \<and> \<not> isHeadingLike latin1Upper [9, 10, 32] (js ''Heading 1'') \<and> \<not> isHeadingLike latin1Upper [] (js ''Heading 2'')"
proof -
  have h: "clean (js ''  '') = []" by code_simp
  have a: "list_all isSpace [9, 10, 32]" by code_simp
  have b: "list_all isSpace []" by simp
  show ?thesis
    using h blank_text_not_heading [of "js ''  ''" latin1Upper "js ''Title''"]
      blank_text_not_heading [of "[9, 10, 32]" latin1Upper "js ''Heading 1''"] a
      blank_text_not_heading [of "[]" latin1Upper "js ''Heading 2''"] b
    by blast
qed

lemma toUpperCase_ascii:
  "list_all (\<lambda>c. c < 128) t \<Longrightarrow> toUpperCase upperTable t = map upperUnit t"
  by (induction t) simp_all

lemma own_upper_ascii:
  assumes "list_all (\<lambda>c. c < 128) t"
  shows "t = toUpperCase upperTable t \<longleftrightarrow> list_all (\<lambda>c. \<not> (97 \<le> c \<and> c \<le> 122)) t"
proof -
  have "map upperUnit t = t \<longleftrightarrow> (\<forall>c\<in>set t. upperUnit c = c)"
    using map_eq_conv [of upperUnit t id] by simp
  also have "\<dots> \<longleftrightarrow> list_all (\<lambda>c. \<not> (97 \<le> c \<and> c \<le> 122)) t"
    by (auto simp: list_all_iff upperUnit_def)
  finally show ?thesis by (auto simp: toUpperCase_ascii [OF assms])
qed

text \<open>
  Claim C5: for every upper-case table of the runtime, \<open>isAllCapsShort\<close> holds exactly when
  the normalized string is not empty, has at most 44 code units, has at least 6 positions
  holding a letter A to Z, and is equal to its own upper-casing. On a string of ASCII code
  units the last condition says that no letter a to z occurs, whatever the table is. It
  holds for "THE END" and fails for "A", for "the end" and for "THE END of it" (enough
  capitals, not its own upper case). With a table that maps U+00DF to "SS" it fails for
  "STRA\<open>U+00DF\<close>E NACH BERLIN", with one that maps U+00E9 to U+00C9 it fails for
  "CAF\<open>U+00E9\<close> DE PARIS", and with one that leaves U+00C9 as it is it holds for
  "CAF\<open>U+00C9\<close> DE PARIS", whose accented letter is not counted.
\<close>

theorem isAllCapsShort_iff:
  "(isAllCapsShort upperTable s \<longleftrightarrow>
      clean s \<noteq> [] \<and> length (clean s) \<le> 44
      \<and> 6 \<le> card {i. i < length (clean s) \<and> 65 \<le> clean s ! i \<and> clean s ! i \<le> 90}
      \<and> clean s = toUpperCase upperTable (clean s))
   \<and> (list_all (\<lambda>c. c < 128) (clean s) \<longrightarrow>
        (clean s = toUpperCase upperTable (clean s)
           \<longleftrightarrow> list_all (\<lambda>c. \<not> (97 \<le> c \<and> c \<le> 122)) (clean s)))
   \<and> isAllCapsShort upperTable (js ''THE END'')
   \<and> \<not> isAllCapsShort upperTable (js ''A'')
   \<and> \<not> isAllCapsShort upperTable (js ''the end'')
   \<and> \<not> isAllCapsShort upperTable (js ''THE END of it'')
   \<and> (upperTable [223] = [83, 83] \<longrightarrow>
        \<not> isAllCapsShort upperTable (js ''STRA'' @ [223] @ js ''E NACH BERLIN''))
   \<and> (upperTable [233] = [201] \<longrightarrow>
        \<not> isAllCapsShort upperTable (js ''CAF'' @ [233] @ js '' DE PARIS''))
   \<and> (upperTable [201] = [201] \<longrightarrow>
        isAllCapsShort upperTable (js ''CAF'' @ [201] @ js '' DE PARIS''))"
proof -
  have cnt: "length (filter isUpperAZ t) = card {i. i < length t \<and> 65 \<le> t ! i \<and> t ! i \<le> 90}" for t
    by (simp add: length_filter_conv_card isUpperAZ_def)
  have 1: "isAllCapsShort upperTable s \<longleftrightarrow>
      clean s \<noteq> [] \<and> length (clean s) \<le> 44
      \<and> 6 \<le> card {i. i < length (clean s) \<and> 65 \<le> clean s ! i \<and> clean s ! i \<le> 90}
      \<and> clean s = toUpperCase upperTable (clean s)"
    by (auto simp: isAllCapsShort_def Let_def cnt)
  have 2: "isAllCapsShort upperTable (js ''THE END'')" by code_simp
  have 3: "\<not> isAllCapsShort upperTable (js ''A'')" by code_simp
  have 4: "\<not> isAllCapsShort upperTable (js ''the end'')" by code_simp
  have 5: "\<not> isAllCapsShort upperTable (js ''THE END of it'')" by code_simp
  have c6: "clean (js ''STRA'' @ [223] @ js ''E NACH BERLIN'') = js ''STRA'' @ [223] @ js ''E NACH BERLIN''"
    by code_simp
  have u6: "toUpperCase upperTable (js ''STRA'' @ [223] @ js ''E NACH BERLIN'')
      = js ''STRA'' @ upperTable [223] @ js ''E NACH BERLIN''"
    by (simp add: js_def upperUnit_def)
  have 6: "\<not> isAllCapsShort upperTable (js ''STRA'' @ [223] @ js ''E NACH BERLIN'')"
    if "upperTable [223] = [83, 83]"
    unfolding isAllCapsShort_def Let_def c6 u6 using that by (simp add: js_def)
  have c7: "clean (js ''CAF'' @ [233] @ js '' DE PARIS'') = js ''CAF'' @ [233] @ js '' DE PARIS''"
    by code_simp
  have u7: "toUpperCase upperTable (js ''CAF'' @ [233] @ js '' DE PARIS'')
      = js ''CAF'' @ upperTable [233] @ js '' DE PARIS''"
    by (simp add: js_def upperUnit_def)
  have 7: "\<not> isAllCapsShort upperTable (js ''CAF'' @ [233] @ js '' DE PARIS'')"
    if "upperTable [233] = [201]"
    unfolding isAllCapsShort_def Let_def c7 u7 using that by (simp add: js_def)
  have c8: "clean (js ''CAF'' @ [201] @ js '' DE PARIS'') = js ''CAF'' @ [201] @ js '' DE PARIS''"
    by code_simp
  have u8: "toUpperCase upperTable (js ''CAF'' @ [201] @ js '' DE PARIS'')
      = js ''CAF'' @ upperTable [201] @ js '' DE PARIS''"
    by (simp add: js_def upperUnit_def)
  have l8: "6 \<le> length (filter isUpperAZ (js ''CAF'' @ [201] @ js '' DE PARIS''))
      \<and> length (js ''CAF'' @ [201] @ js '' DE PARIS'') \<le> 44
      \<and> js ''CAF'' @ [201] @ js '' DE PARIS'' \<noteq> []"
    by code_simp
  have 8: "isAllCapsShort upperTable (js ''CAF'' @ [201] @ js '' DE PARIS'')"
    if "upperTable [201] = [201]"
    unfolding isAllCapsShort_def Let_def c8 u8 using that l8 by simp
  show ?thesis using 1 own_upper_ascii [of "clean s" upperTable] 2 3 4 5 6 7 8 by blast
qed

theorem isAllCapsShort_iff_witness:
  "list_all (\<lambda>c. c < 128) (clean (js '' THE  END of it ''))
   \<and> \<not> list_all (\<lambda>c. \<not> (97 \<le> c \<and> c \<le> 122)) (clean (js '' THE  END of it ''))
   \<and> clean (js '' THE  END of it '') \<noteq> toUpperCase latin1Upper (clean (js '' THE  END of it ''))
   \<and> latin1Upper [223] = [83, 83] \<and> latin1Upper [233] = [201] \<and> latin1Upper [201] = [201]
   \<and> \<not> isAllCapsShort latin1Upper (js ''STRA'' @ [223] @ js ''E NACH BERLIN'')
   \<and> \<not> isAllCapsShort latin1Upper (js ''CAF'' @ [233] @ js '' DE PARIS'')
   \<and> isAllCapsShort latin1Upper (js ''CAF'' @ [201] @ js '' DE PARIS'')"
proof -
  have a: "list_all (\<lambda>c. c < 128) (clean (js '' THE  END of it ''))" by code_simp
  have b: "\<not> list_all (\<lambda>c. \<not> (97 \<le> c \<and> c \<le> 122)) (clean (js '' THE  END of it ''))" by code_simp
  have c: "latin1Upper [223] = [83, 83] \<and> latin1Upper [233] = [201] \<and> latin1Upper [201] = [201]"
    by code_simp
  show ?thesis
    using a b c isAllCapsShort_iff [of latin1Upper "js '' THE  END of it ''"] by blast
qed

lemma chapter_pattern_test:
  assumes t: "t = kw @ ws @ tok @ rest"
    and kw: "toLowerCase kw = js ''chapter'' \<or> toLowerCase kw = js ''chap.''"
    and ws: "ws \<noteq> []" "list_all isSpace ws"
    and tok: "isChapterToken tok"
    and bnd: "rest = [] \<or> \<not> isWordChar (hd rest)"
  shows "test CHAPTER_RE t"
proof -
  let ?kw = "Alt (Lit (js ''chapter'')) (Seq (Lit (js ''chap'')) (Opt (Lit (js ''.''))))"
  let ?tok = "alts ([digitsTok, romanTok] @ map (\<lambda>w. Lit (js w))
        [''one'', ''two'', ''three'', ''four'', ''five'', ''six'', ''seven'', ''eight'', ''nine'',
         ''ten'', ''eleven'', ''twelve''])"
  let ?p1 = "lastUnit None kw"
  let ?p2 = "lastUnit ?p1 ws"
  let ?end = "(Some (last tok), rest)"
  have s7: "?end \<in> set (rmatch True (Lit []) ?end)" by simp
  have "(lastUnit (Some (last tok)) [], rest) \<in> set (rmatch True sepTail (Some (last tok), [] @ rest))"
    unfolding sepTail_def by (rule many_mem) simp_all
  then have s6: "?end \<in> set (rmatch True sepTail ?end)" by simp
  have wb: "isWordChar (last tok)" using token_match [OF tok] by blast
  have "\<not> isWordAfter rest" using bnd by (cases rest) (simp_all add: isWordAfter_def)
  then have s5: "?end \<in> set (rmatch True WordB ?end)"
    using wb by (simp add: isWordBefore_def)
  have s4: "?end \<in> set (rmatch True ?tok (?p2, tok @ rest))"
    using token_match [OF tok] by blast
  have "1 \<le> length ws" using ws(1) by (cases ws) simp_all
  moreover have "\<forall>c\<in>set ws. setMatch True [Space] c"
    using ws(2) by (simp add: list_all_iff setMatch_def)
  ultimately have s3: "(?p2, tok @ rest) \<in> set (rmatch True (Many 1 [Space]) (?p1, ws @ tok @ rest))"
    by (rule many_mem)
  have s2: "(?p1, ws @ tok @ rest) \<in> set (rmatch True ?kw (None, kw @ ws @ tok @ rest))"
    by (rule keyword_match [OF kw])
  have s1: "(None, t) \<in> set (rmatch True Bol (None, t))" by simp
  have "?end \<in> set (rmatch True (seqs [Bol, ?kw, Many 1 [Space], ?tok, WordB, sepTail]) (None, t))"
    unfolding seqs_def foldr.simps o_apply id_apply
    by (intro seq_mem [OF s1] seq_mem [OF s2 [folded t]] seq_mem [OF s3] seq_mem [OF s4]
        seq_mem [OF s5] seq_mem [OF s6] s7)
  then have "rmatch True (seqs [Bol, ?kw, Many 1 [Space], ?tok, WordB, sepTail]) (None, t) \<noteq> []"
    by auto
  then show ?thesis
    unfolding CHAPTER_RE_def test.simps by (rule search_here)
qed

text \<open>
  Claim C6: a text whose normalized form starts with "chapter" or "chap." in either case,
  then white space, then a chapter token that ends at a word boundary, is heading-like for
  every style hint; "Chapter 3" and "Chapter Three: The Arrival" are heading-like and
  "it was a dark night" is not.
\<close>

theorem chapter_pattern_heading:
  "(\<forall>txt style kw ws tok rest.
      clean txt = kw @ ws @ tok @ rest
      \<and> (toLowerCase kw = js ''chapter'' \<or> toLowerCase kw = js ''chap.'')
      \<and> ws \<noteq> [] \<and> list_all isSpace ws
      \<and> isChapterToken tok
      \<and> (rest = [] \<or> \<not> isWordChar (hd rest))
      \<longrightarrow> isHeadingLike upperTable txt style)
   \<and> isHeadingLike upperTable (js ''Chapter 3'') (js '''')
   \<and> isHeadingLike upperTable (js ''Chapter Three: The Arrival'') (js '''')
   \<and> \<not> isHeadingLike upperTable (js ''it was a dark night'') (js '''')"
proof -
  have 1: "isHeadingLike upperTable tx style"
    if "clean tx = kw @ ws @ tok @ rest"
      and "toLowerCase kw = js ''chapter'' \<or> toLowerCase kw = js ''chap.''"
      and "ws \<noteq> []" "list_all isSpace ws" "isChapterToken tok"
      and "rest = [] \<or> \<not> isWordChar (hd rest)"
    for tx style kw ws tok rest
  proof -
    have "test CHAPTER_RE (clean tx)"
      using that by (rule chapter_pattern_test)
    moreover have "clean tx \<noteq> []" using that(1,3) by simp
    ultimately show ?thesis by (simp add: isHeadingLike_def)
  qed
  have 2: "isHeadingLike upperTable (js ''Chapter 3'') (js '''')" by code_simp
  have 3: "isHeadingLike upperTable (js ''Chapter Three: The Arrival'') (js '''')" by code_simp
  have 4: "\<not> isHeadingLike upperTable (js ''it was a dark night'') (js '''')" by code_simp
  show ?thesis using 1 2 3 4 by blast
qed

theorem chapter_pattern_heading_witness:
  "clean (js ''  CHAP.   xiv - The Storm'') = js ''CHAP.'' @ js '' '' @ js ''xiv'' @ js '' - The Storm''
   \<and> isChapterToken (js ''xiv'')
   \<and> isHeadingLike latin1Upper (js ''  CHAP.   xiv - The Storm'') (js ''Normal'')"
proof -
  have a: "clean (js ''  CHAP.   xiv - The Storm'') = js ''CHAP.'' @ js '' '' @ js ''xiv'' @ js '' - The Storm''"
    by code_simp
  have b: "toLowerCase (js ''CHAP.'') = js ''chap.''" by code_simp
  have c: "js '' '' \<noteq> [] \<and> list_all isSpace (js '' '')" by code_simp
  have d: "isChapterToken (js ''xiv'')" by code_simp
  have e: "\<not> isWordChar (hd (js '' - The Storm''))" by code_simp
  show ?thesis
    using a b c d e
      chapter_pattern_heading [THEN conjunct1, rule_format,
        of "js ''  CHAP.   xiv - The Storm''" "js ''CHAP.''" "js '' ''" "js ''xiv''" "js '' - The Storm''"
          latin1Upper "js ''Normal''"]
    by blast
qed

section \<open>The style patterns, exactly\<close>

lemma litMatch_iff:
  "(p', r) \<in> set (litMatch ic as (p, xs)) \<longleftrightarrow>
     (\<exists>w. xs = w @ r \<and> list_all2 (chMatch ic) as w \<and> p' = lastUnit p w)"
proof (induction as arbitrary: p xs)
  case Nil
  then show ?case by auto
next
  case (Cons a as)
  show ?case
  proof (cases xs)
    case Nil
    then show ?thesis by (auto simp: list_all2_Cons1)
  next
    case (Cons c cs)
    show ?thesis
    proof (cases "chMatch ic a c")
      case True
      then show ?thesis
        using Cons.IH [of "Some c" cs] Cons
        by (auto simp: list_all2_Cons1)
    next
      case False
      then show ?thesis using Cons by (auto simp: list_all2_Cons1)
    qed
  qed
qed

lemma runStates_drop_iff:
  "(p', r) \<in> set (drop n (runStates P (p, xs))) \<longleftrightarrow>
     (\<exists>w. xs = w @ r \<and> n \<le> length w \<and> (\<forall>c\<in>set w. P c) \<and> p' = lastUnit p w)"
proof (induction xs arbitrary: p n)
  case Nil
  then show ?case by (cases n) auto
next
  case (Cons c cs)
  show ?case
  proof (cases n)
    case 0
    have "(p', r) \<in> set (runStates P (p, c # cs)) \<longleftrightarrow>
        (p' = p \<and> r = c # cs) \<or> (P c \<and> (p', r) \<in> set (drop 0 (runStates P (Some c, cs))))"
      by auto
    also have "\<dots> \<longleftrightarrow> (p' = p \<and> r = c # cs) \<or>
        (P c \<and> (\<exists>w. cs = w @ r \<and> (\<forall>c\<in>set w. P c) \<and> p' = lastUnit (Some c) w))"
      unfolding Cons.IH by simp
    also have "\<dots> \<longleftrightarrow> (\<exists>w. c # cs = w @ r \<and> (\<forall>c\<in>set w. P c) \<and> p' = lastUnit p w)"
      by (auto simp: Cons_eq_append_conv)
    finally show ?thesis using 0 by simp
  next
    case (Suc m)
    have "(p', r) \<in> set (drop n (runStates P (p, c # cs))) \<longleftrightarrow>
        (P c \<and> (p', r) \<in> set (drop m (runStates P (Some c, cs))))"
      using Suc by auto
    also have "\<dots> \<longleftrightarrow>
        (P c \<and> (\<exists>w. cs = w @ r \<and> m \<le> length w \<and> (\<forall>c\<in>set w. P c) \<and> p' = lastUnit (Some c) w))"
      unfolding Cons.IH by simp
    also have "\<dots> \<longleftrightarrow> (\<exists>w. c # cs = w @ r \<and> n \<le> length w \<and> (\<forall>c\<in>set w. P c) \<and> p' = lastUnit p w)"
      using Suc by (auto simp: Cons_eq_append_conv)
    finally show ?thesis .
  qed
qed

lemma many_iff:
  "(p', r) \<in> set (rmatch ic (Many n as) (p, xs)) \<longleftrightarrow>
     (\<exists>w. xs = w @ r \<and> n \<le> length w \<and> (\<forall>c\<in>set w. setMatch ic as c) \<and> p' = lastUnit p w)"
  by (simp add: runStates_drop_iff)

lemma set_iff:
  "(p', r) \<in> set (rmatch ic (Set as) (p, xs)) \<longleftrightarrow> (\<exists>c. xs = c # r \<and> setMatch ic as c \<and> p' = Some c)"
  by (cases xs) auto

lemma seq_iff:
  "st'' \<in> set (rmatch ic (Seq a b) st) \<longleftrightarrow> (\<exists>st'\<in>set (rmatch ic a st). st'' \<in> set (rmatch ic b st'))"
  by auto

lemma search_iff:
  "search ic r (p, xs) \<longleftrightarrow> (\<exists>pre suf. xs = pre @ suf \<and> rmatch ic r (lastUnit p pre, suf) \<noteq> [])"
proof (induction xs arbitrary: p)
  case Nil
  then show ?case by simp
next
  case (Cons c cs)
  show ?case
  proof
    assume "search ic r (p, c # cs)"
    then consider "rmatch ic r (p, c # cs) \<noteq> []"
      | pre suf where "cs = pre @ suf" "rmatch ic r (lastUnit (Some c) pre, suf) \<noteq> []"
      using Cons.IH by auto
    then show "\<exists>pre suf. c # cs = pre @ suf \<and> rmatch ic r (lastUnit p pre, suf) \<noteq> []"
    proof cases
      case 1
      then have "c # cs = [] @ (c # cs) \<and> rmatch ic r (lastUnit p [], c # cs) \<noteq> []" by simp
      then show ?thesis by blast
    next
      case 2
      then have "c # cs = (c # pre) @ suf \<and> rmatch ic r (lastUnit p (c # pre), suf) \<noteq> []" by simp
      then show ?thesis by blast
    qed
  next
    assume "\<exists>pre suf. c # cs = pre @ suf \<and> rmatch ic r (lastUnit p pre, suf) \<noteq> []"
    then obtain pre suf where eq: "c # cs = pre @ suf" and m: "rmatch ic r (lastUnit p pre, suf) \<noteq> []"
      by blast
    show "search ic r (p, c # cs)"
    proof (cases pre)
      case Nil
      then have "rmatch ic r (p, c # cs) \<noteq> []" using eq m by simp
      then show ?thesis by simp
    next
      case (Cons d pre')
      then have "cs = pre' @ suf" and "rmatch ic r (lastUnit (Some c) pre', suf) \<noteq> []"
        using eq m by simp_all
      then have "search ic r (Some c, cs)" using Cons.IH by blast
      then show ?thesis by simp
    qed
  qed
qed

lemma chMatch_exact: "list_all2 (chMatch False) as w \<longleftrightarrow> w = as"
proof -
  have "chMatch False = (=)" by (auto simp: chMatch_def fun_eq_iff)
  then show ?thesis by (auto simp: list_all2_eq [symmetric])
qed

lemma space_setMatch [simp]: "setMatch ic [Space] c = isSpace c"
  by (simp add: setMatch_def)

lemma nonempty_iff_mem: "xs \<noteq> [] \<longleftrightarrow> (\<exists>x. x \<in> set xs)"
  by (cases xs) auto

lemma heading12_iff:
  "test HEADING12_RE s \<longleftrightarrow>
     (\<exists>pre ws d post. s = pre @ js ''heading'' @ ws @ d # post \<and> list_all isSpace ws \<and> (d = 49 \<or> d = 50))"
proof -
  have digit: "setMatch False [Ch 49, Ch 50] d \<longleftrightarrow> d = 49 \<or> d = 50" for d
    by (auto simp: setMatch_def chMatch_def)
  have "test HEADING12_RE s \<longleftrightarrow>
      (\<exists>pre suf. s = pre @ suf \<and>
         (\<exists>p' r. (p', r) \<in> set (rmatch False
            (Seq (Lit (js ''heading'')) (Seq (Many 0 [Space]) (Seq (Set [Ch 49, Ch 50]) (Lit [])))) (lastUnit None pre, suf))))"
    by (simp add: HEADING12_RE_def seqs_def search_iff nonempty_iff_mem del: rmatch.simps)
  also have "\<dots> \<longleftrightarrow>
      (\<exists>pre suf. s = pre @ suf \<and> (\<exists>ws d post. suf = js ''heading'' @ ws @ d # post
          \<and> (\<forall>c\<in>set ws. isSpace c) \<and> (d = 49 \<or> d = 50)))"
    unfolding seq_iff Bex_def split_paired_Ex many_iff set_iff digit
    by (simp add: litMatch_iff chMatch_exact) blast
  finally show ?thesis unfolding list_all_iff by blast
qed

lemma heading1_iff:
  "test HEADING1_RE s \<longleftrightarrow>
     (\<exists>pre ws post. s = pre @ js ''heading'' @ ws @ js ''1'' @ post \<and> list_all isSpace ws)"
proof -
  have "test HEADING1_RE s \<longleftrightarrow>
      (\<exists>pre suf. s = pre @ suf \<and>
         (\<exists>p' r. (p', r) \<in> set (rmatch False
            (Seq (Lit (js ''heading'')) (Seq (Many 0 [Space]) (Seq (Lit (js ''1'')) (Lit [])))) (lastUnit None pre, suf))))"
    by (simp add: HEADING1_RE_def seqs_def search_iff nonempty_iff_mem del: rmatch.simps)
  also have "\<dots> \<longleftrightarrow>
      (\<exists>pre suf. s = pre @ suf \<and> (\<exists>ws post. suf = js ''heading'' @ ws @ js ''1'' @ post
          \<and> (\<forall>c\<in>set ws. isSpace c)))"
    unfolding seq_iff Bex_def split_paired_Ex many_iff
    by (simp add: litMatch_iff chMatch_exact) blast
  finally show ?thesis unfolding list_all_iff by blast
qed

text \<open>
  Claim C10: the style branch of the classifier holds exactly when the lower-cased style
  hint contains "heading", then any white space, then the digit 1 or 2, anywhere in it, or
  is equal to "title"; with it every text that does not normalize to the empty string is
  heading-like. So "Subheading 1" and "Heading 10" classify as headings, and "Title Page"
  does not classify through its style.
\<close>

theorem style_heading_classification:
  "(isStyleHeading style \<longleftrightarrow>
      (\<exists>pre ws d post. toLowerCase style = pre @ js ''heading'' @ ws @ d # post
          \<and> list_all isSpace ws \<and> (d = 49 \<or> d = 50))
      \<or> toLowerCase style = js ''title'')
   \<and> (clean tx \<noteq> [] \<and> isStyleHeading style \<longrightarrow> isHeadingLike upperTable tx style)
   \<and> isHeadingLike upperTable (js ''Some words'') (js ''Subheading 1'')
   \<and> isHeadingLike upperTable (js ''Some words'') (js ''Heading 10'')
   \<and> isHeadingLike upperTable (js ''Some words'') (js ''Title'')
   \<and> \<not> isStyleHeading (js ''Title Page'')
   \<and> \<not> isHeadingLike upperTable (js ''Some words'') (js ''Title Page'')"
proof -
  have 1: "isStyleHeading style \<longleftrightarrow>
      (\<exists>pre ws d post. toLowerCase style = pre @ js ''heading'' @ ws @ d # post
          \<and> list_all isSpace ws \<and> (d = 49 \<or> d = 50))
      \<or> toLowerCase style = js ''title''"
    by (simp add: isStyleHeading_def heading12_iff Let_def)
  have 2: "clean tx \<noteq> [] \<and> isStyleHeading style \<longrightarrow> isHeadingLike upperTable tx style"
    by (simp add: isHeadingLike_def)
  have 3: "isHeadingLike upperTable (js ''Some words'') (js ''Subheading 1'')" by code_simp
  have 4: "isHeadingLike upperTable (js ''Some words'') (js ''Heading 10'')" by code_simp
  have 5: "isHeadingLike upperTable (js ''Some words'') (js ''Title'')" by code_simp
  have 6: "\<not> isStyleHeading (js ''Title Page'')" by code_simp
  have 7: "\<not> isHeadingLike upperTable (js ''Some words'') (js ''Title Page'')" by code_simp
  show ?thesis using 1 2 3 4 5 6 7 by blast
qed

theorem style_heading_classification_witness:
  "clean (js ''Some words'') \<noteq> [] \<and> isStyleHeading (js ''HEADING  2'')
   \<and> isHeadingLike latin1Upper (js ''Some words'') (js ''HEADING  2'')"
proof -
  have a: "clean (js ''Some words'') \<noteq> []" by code_simp
  have b: "isStyleHeading (js ''HEADING  2'')" by code_simp
  show ?thesis
    using a b style_heading_classification [of "js ''HEADING  2''" "js ''Some words''" latin1Upper] by blast
qed

section \<open>Segmentation\<close>

lemma clean_Chapter_1: "clean (js ''Chapter 1'') = js ''Chapter 1''"
  by code_simp

lemma Chapter_1_nonempty: "js ''Chapter 1'' \<noteq> []"
  by (simp add: js_def)

lemma textToDoc_Nil: "textToDoc [] = Node ''doc'' None (Some [Node ''paragraph'' None None])"
  by code_simp

text \<open>
  Claim C1: \<open>splitFromParagraphs\<close> is a total function (nothing in it raises), and its
  result has at least one chapter; when no paragraph is left after the blank ones are
  filtered out, the result is the single chapter "Chapter 1" with the empty document.
\<close>

theorem chapters_nonempty:
  "1 \<le> length (chapters (splitFromParagraphs upperTable paragraphs fallbackTitle))
   \<and> (usableParagraphs paragraphs = [] \<longrightarrow>
        chapters (splitFromParagraphs upperTable paragraphs fallbackTitle)
          = [\<lparr>title = js ''Chapter 1'', doc = Node ''doc'' None (Some [Node ''paragraph'' None None])\<rparr>])"
proof -
  obtain nt paras where td: "titleDetection fallbackTitle (usableParagraphs paragraphs) = (nt, paras)"
    by fastforce
  obtain chs cur where fl: "foldl (loopStep upperTable) ([], None) paras = (chs, cur)"
    by fastforce
  define pushed where "pushed = pushCurrent chs cur"
  define chapters2 where "chapters2 =
    (if pushed = []
     then [\<lparr>title = js ''Chapter 1'', doc = textToDoc (join [10, 10] (map ptext paras))\<rparr>]
     else pushed)"
  have ne: "chapters2 \<noteq> []" by (simp add: chapters2_def)
  have "length (chapters (splitFromParagraphs upperTable paragraphs fallbackTitle)) = length chapters2"
    by (simp add: splitFromParagraphs_def td fl chapters2_def pushed_def Let_def)
  moreover have "1 \<le> length chapters2" using ne by (cases chapters2) simp_all
  ultimately have 1: "1 \<le> length (chapters (splitFromParagraphs upperTable paragraphs fallbackTitle))"
    by simp
  have 2: "chapters (splitFromParagraphs upperTable paragraphs fallbackTitle)
          = [\<lparr>title = js ''Chapter 1'', doc = Node ''doc'' None (Some [Node ''paragraph'' None None])\<rparr>]"
    if "usableParagraphs paragraphs = []"
    using that
    by (simp add: splitFromParagraphs_def titleDetection_def pushCurrent_def Let_def
        clean_Chapter_1 Chapter_1_nonempty textToDoc_Nil orElse_def enumerate_eq_zip)
  show ?thesis using 1 2 by blast
qed

theorem chapters_nonempty_witness:
  "usableParagraphs [\<lparr>ptext = js ''   '', pstyle = js ''Title''\<rparr>] = []
   \<and> chapters (splitFromParagraphs latin1Upper [\<lparr>ptext = js ''   '', pstyle = js ''Title''\<rparr>] (js ''draft''))
       = [\<lparr>title = js ''Chapter 1'', doc = Node ''doc'' None (Some [Node ''paragraph'' None None])\<rparr>]"
proof -
  have a: "usableParagraphs [\<lparr>ptext = js ''   '', pstyle = js ''Title''\<rparr>] = []" by code_simp
  show ?thesis
    using a chapters_nonempty [of latin1Upper "[\<lparr>ptext = js ''   '', pstyle = js ''Title''\<rparr>]" "js ''draft''"] by blast
qed

text \<open>
  Claim C2 says that paragraphs none of which is heading-like give one chapter titled
  "Chapter 1" whose body holds all of them. The code does otherwise when the first
  paragraph is short and has no final punctuation: the synthetic title "Chapter 1" of the
  draft it opens matches the chapter pattern, so the subtitle merge moves that paragraph
  from the body into the title. Here is the code on three such paragraphs.
\<close>

theorem headingless_first_line_becomes_title:
  "\<not> isHeadingLike upperTable (js ''It was a dark night'') (js '''')
   \<and> \<not> isHeadingLike upperTable (js ''The rain fell.'') (js '''')
   \<and> \<not> isHeadingLike upperTable (js ''Nobody came.'') (js '''')
   \<and> splitFromParagraphs upperTable
        [\<lparr>ptext = js ''It was a dark night'', pstyle = js ''''\<rparr>,
         \<lparr>ptext = js ''The rain fell.'', pstyle = js ''''\<rparr>,
         \<lparr>ptext = js ''Nobody came.'', pstyle = js ''''\<rparr>] (js ''book'')
       = \<lparr>novelTitle = js ''book'',
          chapters = [\<lparr>title = js ''Chapter 1: It was a dark night'',
                       doc = textToDoc (js ''The rain fell.'' @ [10, 10] @ js ''Nobody came.'')\<rparr>]\<rparr>"
  by code_simp

text \<open>
  Claim C3 says that the subtitle merge applies at most once per draft. A merge leaves the
  body of the draft empty and its title still matches the chapter pattern, so the next
  short line is merged as well. Here is the code on a heading followed by two short lines.
\<close>

theorem subtitle_merge_repeats:
  "\<not> isHeadingLike upperTable (js ''The Arrival'') (js '''')
   \<and> \<not> isHeadingLike upperTable (js ''A second line'') (js '''')
   \<and> splitFromParagraphs upperTable
        [\<lparr>ptext = js ''Chapter 1'', pstyle = js ''''\<rparr>,
         \<lparr>ptext = js ''The Arrival'', pstyle = js ''''\<rparr>,
         \<lparr>ptext = js ''A second line'', pstyle = js ''''\<rparr>,
         \<lparr>ptext = js ''She walked in.'', pstyle = js ''''\<rparr>] (js ''book'')
       = \<lparr>novelTitle = js ''book'',
          chapters = [\<lparr>title = js ''Chapter 1: The Arrival: A second line'',
                       doc = textToDoc (js ''She walked in.'')\<rparr>]\<rparr>"
  by code_simp

text \<open>The end-to-end example of the specification, and the rule of a single merge step.\<close>

lemma end_to_end_example:
  "splitFromParagraphs upperTable
        [\<lparr>ptext = js ''My Novel'', pstyle = js ''Title''\<rparr>,
         \<lparr>ptext = js ''Chapter 1'', pstyle = js ''''\<rparr>,
         \<lparr>ptext = js ''It was dawn.'', pstyle = js ''''\<rparr>,
         \<lparr>ptext = js '''', pstyle = js ''''\<rparr>,
         \<lparr>ptext = js ''Chapter 2'', pstyle = js ''''\<rparr>,
         \<lparr>ptext = js ''The Arrival'', pstyle = js ''''\<rparr>,
         \<lparr>ptext = js ''She walked in.'', pstyle = js ''''\<rparr>] (js ''book'')
       = \<lparr>novelTitle = js ''My Novel'',
          chapters = [\<lparr>title = js ''Chapter 1'', doc = textToDoc (js ''It was dawn.'')\<rparr>,
                      \<lparr>title = js ''Chapter 2: The Arrival'', doc = textToDoc (js ''She walked in.'')\<rparr>]\<rparr>"
  by code_simp

lemma subtitle_merge_step:
  assumes "\<not> isHeadingLike upperTable (ptext p) (pstyle p)"
    and "body d = []"
    and "matchesStructure (clean (dtitle d))"
    and "clean (ptext p) \<noteq> []" "length (clean (ptext p)) \<le> 60"
    and "\<not> test ENDPUNCT_RE (clean (ptext p))"
  shows "loopStep upperTable (chs, Some d) p = (chs, Some (d\<lparr>dtitle := clean (dtitle d) @ js '': '' @ clean (ptext p)\<rparr>))"
  using assms by (simp add: loopStep_def Let_def)

lemma usable_all: "p \<in> set (usableParagraphs paragraphs) \<Longrightarrow> clean (ptext p) \<noteq> []"
  by (simp add: usableParagraphs_def)

lemma novelTitle_split:
  "novelTitle (splitFromParagraphs upperTable paragraphs fb) = fst (titleDetection fb (usableParagraphs paragraphs))"
  by (simp add: splitFromParagraphs_def Let_def split: prod.splits)

text \<open>
  Claim C4, amended: on a non-empty list of filtered paragraphs the first one is consumed
  as the novel title exactly when its normalized text is not empty, has at most 80 code
  units, matches none of the chapter, part and front-matter patterns, and its lower-cased
  style hint is "title" or contains "heading", any white space and "1". Otherwise the
  paragraph stays in the stream and the novel title is the given fallback title, or
  "Untitled Novel" when the fallback title is empty.
\<close>

theorem title_detection:
  assumes "usableParagraphs paragraphs = first # rest"
  shows "let t = clean (ptext first);
             st = toLowerCase (pstyle first);
             cond = (t \<noteq> [] \<and> length t \<le> 80
                     \<and> \<not> test CHAPTER_RE t \<and> \<not> test PART_RE t \<and> \<not> test FRONT_RE t
                     \<and> (st = js ''title''
                         \<or> (\<exists>pre ws post. st = pre @ js ''heading'' @ ws @ js ''1'' @ post
                                \<and> list_all isSpace ws)));
             fallback = (if fb = [] then js ''Untitled Novel'' else fb)
         in (snd (titleDetection fb (first # rest)) = rest \<longleftrightarrow> cond)
            \<and> (if cond
                then titleDetection fb (first # rest) = (t, rest)
                     \<and> novelTitle (splitFromParagraphs upperTable paragraphs fb) = t
                else titleDetection fb (first # rest) = (fallback, first # rest)
                     \<and> novelTitle (splitFromParagraphs upperTable paragraphs fb) = fallback)"
proof -
  have "\<forall>p\<in>set rest. clean (ptext p) \<noteq> []"
    using usable_all [of _ paragraphs] assms by simp
  then have dw: "dropWhile (\<lambda>p. clean (ptext p) = []) rest = rest"
    by (cases rest) simp_all
  have tc: "titleCondition first \<longleftrightarrow>
      (clean (ptext first) \<noteq> [] \<and> length (clean (ptext first)) \<le> 80
       \<and> \<not> test CHAPTER_RE (clean (ptext first)) \<and> \<not> test PART_RE (clean (ptext first))
       \<and> \<not> test FRONT_RE (clean (ptext first))
       \<and> (toLowerCase (pstyle first) = js ''title''
           \<or> (\<exists>pre ws post. toLowerCase (pstyle first) = pre @ js ''heading'' @ ws @ js ''1'' @ post
                  \<and> list_all isSpace ws)))"
    by (simp add: titleCondition_def heading1_iff Let_def)
  show ?thesis
  proof (cases "titleCondition first")
    case True
    then have "titleDetection fb (first # rest) = (clean (ptext first), rest)"
      by (simp add: titleDetection_def dw Let_def)
    then show ?thesis
      unfolding novelTitle_split assms Let_def tc [symmetric] using True by simp
  next
    case False
    then have "titleDetection fb (first # rest) = (if fb = [] then js ''Untitled Novel'' else fb, first # rest)"
      by (simp add: titleDetection_def orElse_def Let_def)
    then show ?thesis
      unfolding novelTitle_split assms Let_def tc [symmetric] using False by simp
  qed
qed

theorem title_detection_witness:
  "usableParagraphs [\<lparr>ptext = js ''My Novel'', pstyle = js ''Title''\<rparr>, \<lparr>ptext = js '' '', pstyle = js ''''\<rparr>,
                     \<lparr>ptext = js ''Chapter 1'', pstyle = js ''''\<rparr>]
     = [\<lparr>ptext = js ''My Novel'', pstyle = js ''Title''\<rparr>, \<lparr>ptext = js ''Chapter 1'', pstyle = js ''''\<rparr>]
   \<and> titleDetection (js ''book'')
        [\<lparr>ptext = js ''My Novel'', pstyle = js ''Title''\<rparr>, \<lparr>ptext = js ''Chapter 1'', pstyle = js ''''\<rparr>]
     = (js ''My Novel'', [\<lparr>ptext = js ''Chapter 1'', pstyle = js ''''\<rparr>])
   \<and> novelTitle (splitFromParagraphs latin1Upper
        [\<lparr>ptext = js ''My Novel'', pstyle = js ''Title''\<rparr>, \<lparr>ptext = js '' '', pstyle = js ''''\<rparr>,
         \<lparr>ptext = js ''Chapter 1'', pstyle = js ''''\<rparr>] (js ''book'')) = js ''My Novel''
   \<and> usableParagraphs [\<lparr>ptext = js ''Chapter 1'', pstyle = js ''Heading 1''\<rparr>]
     = [\<lparr>ptext = js ''Chapter 1'', pstyle = js ''Heading 1''\<rparr>]
   \<and> titleDetection (js ''book'') [\<lparr>ptext = js ''Chapter 1'', pstyle = js ''Heading 1''\<rparr>]
     = (js ''book'', [\<lparr>ptext = js ''Chapter 1'', pstyle = js ''Heading 1''\<rparr>])
   \<and> novelTitle (splitFromParagraphs latin1Upper [\<lparr>ptext = js ''Chapter 1'', pstyle = js ''Heading 1''\<rparr>] (js ''book''))
     = js ''book''"
proof -
  let ?p1 = "\<lparr>ptext = js ''My Novel'', pstyle = js ''Title''\<rparr>"
  let ?p2 = "\<lparr>ptext = js '' '', pstyle = js ''''\<rparr>"
  let ?p3 = "\<lparr>ptext = js ''Chapter 1'', pstyle = js ''''\<rparr>"
  let ?p4 = "\<lparr>ptext = js ''Chapter 1'', pstyle = js ''Heading 1''\<rparr>"
  have a: "usableParagraphs [?p1, ?p2, ?p3] = ?p1 # [?p3]" by code_simp
  have b: "clean (ptext ?p1) = js ''My Novel''" by code_simp
  have c: "js ''My Novel'' \<noteq> [] \<and> length (js ''My Novel'') \<le> 80
           \<and> \<not> test CHAPTER_RE (js ''My Novel'') \<and> \<not> test PART_RE (js ''My Novel'')
           \<and> \<not> test FRONT_RE (js ''My Novel'')" by code_simp
  have d: "toLowerCase (pstyle ?p1) = js ''title''" by code_simp
  have e: "usableParagraphs [?p4] = ?p4 # []" by code_simp
  have f: "test CHAPTER_RE (clean (ptext ?p4))" by code_simp
  have g: "js ''book'' \<noteq> []" by (simp add: js_def)
  have 1: "titleDetection (js ''book'') [?p1, ?p3] = (js ''My Novel'', [?p3])
      \<and> novelTitle (splitFromParagraphs latin1Upper [?p1, ?p2, ?p3] (js ''book'')) = js ''My Novel''"
    using title_detection [OF a, where fb = "js ''book''" and upperTable = latin1Upper] b c d by (simp add: Let_def)
  have 2: "titleDetection (js ''book'') [?p4] = (js ''book'', [?p4])
      \<and> novelTitle (splitFromParagraphs latin1Upper [?p4] (js ''book'')) = js ''book''"
    using title_detection [OF e, where fb = "js ''book''" and upperTable = latin1Upper] f g by (simp add: Let_def)
  show ?thesis using a e 1 2 by simp
qed

text \<open>
  Claim C4 as stated fails for the empty fallback title: the first paragraph is not
  consumed, and the novel title is "Untitled Novel", not the fallback title.
\<close>

theorem empty_fallback_title_replaced:
  "usableParagraphs [\<lparr>ptext = js ''It was dawn.'', pstyle = js ''''\<rparr>] = [\<lparr>ptext = js ''It was dawn.'', pstyle = js ''''\<rparr>]
   \<and> \<not> titleCondition \<lparr>ptext = js ''It was dawn.'', pstyle = js ''''\<rparr>
   \<and> snd (titleDetection (js '''') [\<lparr>ptext = js ''It was dawn.'', pstyle = js ''''\<rparr>])
        = [\<lparr>ptext = js ''It was dawn.'', pstyle = js ''''\<rparr>]
   \<and> novelTitle (splitFromParagraphs latin1Upper [\<lparr>ptext = js ''It was dawn.'', pstyle = js ''''\<rparr>] (js ''''))
        = js ''Untitled Novel''
   \<and> js ''Untitled Novel'' \<noteq> js ''''"
  by code_simp

section \<open>The plain-text projection of a compiled document\<close>

lemma takeWhile_nsp_append_space:
  "isSpace c \<Longrightarrow> takeWhile (\<lambda>x. \<not> isSpace x) (xs @ c # v) = takeWhile (\<lambda>x. \<not> isSpace x) xs"
  by (induction xs) simp_all

lemma dropWhile_nsp_append_space:
  "isSpace c \<Longrightarrow> dropWhile (\<lambda>x. \<not> isSpace x) (xs @ c # v) = dropWhile (\<lambda>x. \<not> isSpace x) xs @ c # v"
  by (induction xs) simp_all

lemma tokens_space_append:
  "isSpace c \<Longrightarrow> tokens (u @ c # v) = tokens u @ tokens v"
proof (induction u rule: tokens.induct)
  case 1
  then show ?case by simp
next
  case (2 x xs)
  show ?case
  proof (cases "isSpace x")
    case True
    then show ?thesis using 2 by simp
  next
    case False
    then show ?thesis
      using 2 by (simp add: takeWhile_nsp_append_space dropWhile_nsp_append_space)
  qed
qed

lemma tokens_spaces [simp]: "\<forall>c\<in>set sp. isSpace c \<Longrightarrow> tokens sp = []"
  by (induction sp) simp_all

lemma tokens_lead_spaces: "\<forall>c\<in>set sp. isSpace c \<Longrightarrow> tokens (sp @ s) = tokens s"
  by (induction sp) simp_all

lemma tokens_trail_spaces: "\<forall>c\<in>set sp. isSpace c \<Longrightarrow> tokens (s @ sp) = tokens s"
proof (cases sp)
  case Nil
  then show ?thesis by simp
next
  case (Cons c cs)
  assume a: "\<forall>c\<in>set sp. isSpace c"
  then have "tokens (s @ c # cs) = tokens s @ tokens cs"
    using Cons by (intro tokens_space_append) simp
  then show ?thesis using a Cons by simp
qed

lemma tokens_dropWhile_space [simp]: "tokens (dropWhile isSpace s) = tokens s"
  by (induction s) simp_all

lemma tokens_trim [simp]: "tokens (trim s) = tokens s"
proof -
  define y where "y = dropWhile isSpace s"
  have "y = rev (dropWhile isSpace (rev y)) @ rev (takeWhile isSpace (rev y))"
    by (metis rev_append rev_rev_ident takeWhile_dropWhile_id)
  moreover have "\<forall>c\<in>set (rev (takeWhile isSpace (rev y))). isSpace c"
    by (auto dest: set_takeWhileD)
  ultimately have "tokens y = tokens (rev (dropWhile isSpace (rev y)))"
    by (metis tokens_trail_spaces)
  then show ?thesis by (simp add: trim_def y_def)
qed

lemma tokens_startsWord:
  "startsWord s \<Longrightarrow> tokens s = takeWhile (\<lambda>x. \<not> isSpace x) s # tokens (dropWhile (\<lambda>x. \<not> isSpace x) s)"
  by (cases s) (simp_all add: startsWord_def)

lemma not_startsWord:
  "\<not> startsWord s \<Longrightarrow> takeWhile (\<lambda>x. \<not> isSpace x) s = [] \<and> dropWhile (\<lambda>x. \<not> isSpace x) s = s"
  by (cases s) (simp_all add: startsWord_def)

lemma tokens_cons_cong:
  assumes "tokens s = tokens t" and "startsWord s = startsWord t"
  shows "tokens (c # s) = tokens (c # t)"
proof (cases "isSpace c")
  case True
  then show ?thesis using assms by simp
next
  case False
  show ?thesis
  proof (cases "startsWord s")
    case True
    then have "startsWord t" using assms by simp
    then show ?thesis
      using assms(1) False tokens_startsWord [OF True] tokens_startsWord [of t] by simp
  next
    case False2: False
    then have "\<not> startsWord t" using assms by simp
    then show ?thesis
      using assms(1) False not_startsWord [OF False2] not_startsWord [of t] by simp
  qed
qed

lemma startsWord_Cons [simp]: "startsWord (c # s) = (\<not> isSpace c)"
  by (simp add: startsWord_def)

lemma startsWord_Nil [simp]: "\<not> startsWord []"
  by (simp add: startsWord_def)

lemma tokens_dropWhile_sub:
  assumes "\<And>c. P c \<Longrightarrow> isSpace c"
  shows "tokens (dropWhile P s) = tokens s"
proof -
  have "\<forall>c\<in>set (takeWhile P s). isSpace c"
    using assms by (auto dest: set_takeWhileD)
  then have "tokens (takeWhile P s @ dropWhile P s) = tokens (dropWhile P s)"
    by (rule tokens_lead_spaces)
  then show ?thesis by simp
qed

lemma startsWord_spaces_append:
  "\<forall>c\<in>set r. isSpace c \<Longrightarrow> r \<noteq> [] \<Longrightarrow> \<not> startsWord (r @ x)"
  by (cases r) simp_all

lemma replaceRuns_tokens:
  "(\<And>c. P c \<Longrightarrow> isSpace c) \<Longrightarrow> \<forall>c\<in>set r. isSpace c \<Longrightarrow> r \<noteq> [] \<Longrightarrow>
   tokens (replaceRuns n P r s) = tokens s \<and> startsWord (replaceRuns n P r s) = startsWord s"
proof (induction n P r s rule: replaceRuns.induct)
  case (1 n P r)
  then show ?case by simp
next
  case (2 n P r c cs)
  show ?case
  proof (cases "P c \<and> n \<le> length (takeWhile P (c # cs))")
    case True
    then have c: "isSpace c" using "2.prems"(1) by blast
    have eq: "replaceRuns n P r (c # cs) = r @ replaceRuns n P r (dropWhile P cs)"
      by (simp only: replaceRuns.simps True if_True simp_thms)
    have "tokens (replaceRuns n P r (dropWhile P cs)) = tokens (dropWhile P cs)"
      using "2.IH"(1) [OF True "2.prems"] by blast
    also have "\<dots> = tokens cs"
      using "2.prems"(1) by (rule tokens_dropWhile_sub)
    finally have "tokens (replaceRuns n P r (c # cs)) = tokens (c # cs)"
      unfolding eq using c "2.prems"(2) by (simp add: tokens_lead_spaces)
    moreover have "\<not> startsWord (replaceRuns n P r (c # cs))"
      unfolding eq using "2.prems"(2,3) by (rule startsWord_spaces_append)
    ultimately show ?thesis using c by simp
  next
    case False
    then have eq: "replaceRuns n P r (c # cs) = c # replaceRuns n P r cs"
      by auto
    have ih: "tokens (replaceRuns n P r cs) = tokens cs \<and> startsWord (replaceRuns n P r cs) = startsWord cs"
      using "2.IH"(2) [OF False "2.prems"] .
    have "tokens (c # replaceRuns n P r cs) = tokens (c # cs)"
      using ih by (intro tokens_cons_cong) simp_all
    then show ?thesis unfolding eq by simp
  qed
qed

lemma crToLf_tokens: "tokens (crToLf s) = tokens s \<and> startsWord (crToLf s) = startsWord s"
proof (induction s)
  case Nil
  then show ?case by (simp add: crToLf_def)
next
  case (Cons c cs)
  have ih: "tokens (crToLf cs) = tokens cs" "startsWord (crToLf cs) = startsWord cs"
    using Cons by simp_all
  show ?case
  proof (cases "c = 13")
    case True
    then have "crToLf (c # cs) = 10 # crToLf cs" by (simp add: crToLf_def)
    then show ?thesis using True ih by (simp add: isSpace_def)
  next
    case False
    then have eq: "crToLf (c # cs) = c # crToLf cs" by (simp add: crToLf_def)
    have "tokens (c # crToLf cs) = tokens (c # cs)"
      using ih by (intro tokens_cons_cong) simp_all
    then show ?thesis unfolding eq by simp
  qed
qed

lemma crlfToLf_tokens: "tokens (crlfToLf s) = tokens s \<and> startsWord (crlfToLf s) = startsWord s"
proof (induction s rule: crlfToLf.induct)
  case 1
  then show ?case by simp
next
  case (2 c)
  then show ?case by simp
next
  case (3 c d cs)
  show ?case
  proof (cases "c = 13 \<and> d = 10")
    case True
    then show ?thesis using 3 by (simp add: isSpace_def)
  next
    case False
    then have eq: "crlfToLf (c # d # cs) = c # crlfToLf (d # cs)" by auto
    have ih: "tokens (crlfToLf (d # cs)) = tokens (d # cs)"
        "startsWord (crlfToLf (d # cs)) = startsWord (d # cs)"
      using "3.IH"(2) [OF False] by simp_all
    have "tokens (c # crlfToLf (d # cs)) = tokens (c # d # cs)"
      using ih by (intro tokens_cons_cong) simp_all
    then show ?thesis unfolding eq by simp
  qed
qed

lemma splitRuns_tokens:
  "(\<And>c. P c \<Longrightarrow> isSpace c) \<Longrightarrow> concat (map tokens (splitRuns n P cur s)) = tokens (cur @ s)"
proof (induction n P cur s rule: splitRuns.induct)
  case (1 n P cur)
  then show ?case by simp
next
  case (2 n P cur c cs)
  show ?case
  proof (cases "P c \<and> n \<le> length (takeWhile P (c # cs))")
    case True
    then have c: "isSpace c" using "2.prems" by blast
    have "concat (map tokens (splitRuns n P [] (dropWhile P cs))) = tokens (dropWhile P cs)"
      using "2.IH"(1) [OF True "2.prems"] by simp
    also have "\<dots> = tokens cs" using "2.prems" by (rule tokens_dropWhile_sub)
    finally have "concat (map tokens (cur # splitRuns n P [] (dropWhile P cs))) = tokens (cur @ c # cs)"
      using c by (simp add: tokens_space_append)
    moreover have "splitRuns n P cur (c # cs) = cur # splitRuns n P [] (dropWhile P cs)"
      by (simp only: splitRuns.simps True if_True simp_thms)
    ultimately show ?thesis by simp
  next
    case False
    then have "splitRuns n P cur (c # cs) = splitRuns n P (cur @ [c]) cs" by auto
    then show ?thesis using "2.IH"(2) [OF False "2.prems"] by simp
  qed
qed

lemma trim_Nil_tokens: "trim a = [] \<Longrightarrow> tokens a = []"
  using tokens_trim [of a] by simp

lemma blocks_tokens:
  "concat (map tokens (filter (\<lambda>b. b \<noteq> []) (map trim pieces))) = concat (map tokens pieces)"
  by (induction pieces) (simp_all add: trim_Nil_tokens)

lemma tokens_Nil_iff: "tokens s = [] \<longleftrightarrow> (\<forall>c\<in>set s. isSpace c)"
  by (induction s) simp_all

lemma tokens_wf: "t \<in> set (tokens s) \<Longrightarrow> t \<noteq> [] \<and> (\<forall>c\<in>set t. \<not> isSpace c)"
proof (induction s arbitrary: t rule: tokens.induct)
  case 1
  then show ?case by simp
next
  case (2 c cs)
  show ?case
  proof (cases "isSpace c")
    case True
    then have "t \<in> set (tokens cs)" using "2.prems" by simp
    then show ?thesis using "2.IH"(1) [OF True] by blast
  next
    case False
    then have "tokens (c # cs) = (c # takeWhile (\<lambda>x. \<not> isSpace x) cs) # tokens (dropWhile (\<lambda>x. \<not> isSpace x) cs)"
      by simp
    then consider "t = c # takeWhile (\<lambda>x. \<not> isSpace x) cs"
      | "t \<in> set (tokens (dropWhile (\<lambda>x. \<not> isSpace x) cs))"
      using "2.prems" by auto
    then show ?thesis
    proof cases
      case 1
      have "\<forall>x\<in>set (takeWhile (\<lambda>x. \<not> isSpace x) cs). \<not> isSpace x"
        by (auto dest: set_takeWhileD)
      then show ?thesis using False 1 by simp
    next
      case 2
      then show ?thesis using "2.IH"(2) [OF False] by blast
    qed
  qed
qed

lemma join_Cons: "join sep (x # xs) = (if xs = [] then x else x @ sep @ join sep xs)"
  by (cases xs) simp_all

lemma join_ends:
  "ts \<noteq> [] \<Longrightarrow> \<forall>t\<in>set ts. t \<noteq> [] \<and> (\<forall>c\<in>set t. \<not> isSpace c) \<Longrightarrow>
   join [32] ts \<noteq> [] \<and> \<not> isSpace (hd (join [32] ts)) \<and> \<not> isSpace (last (join [32] ts))"
proof (induction ts)
  case Nil
  then show ?case by simp
next
  case (Cons x xs)
  then have x: "x \<noteq> []" "\<forall>c\<in>set x. \<not> isSpace c" by simp_all
  then have hx: "\<not> isSpace (hd x)" and lx: "\<not> isSpace (last x)" by simp_all
  show ?case
  proof (cases "xs = []")
    case True
    then show ?thesis using x hx lx by simp
  next
    case False
    then have ih: "join [32] xs \<noteq> []" "\<not> isSpace (last (join [32] xs))"
      using Cons by simp_all
    have "join [32] (x # xs) = x @ 32 # join [32] xs"
      using False by (simp add: join_Cons)
    then show ?thesis using x hx ih by simp
  qed
qed

lemma collapse_space:
  "isSpace c \<Longrightarrow> replaceRuns 1 isSpace r (c # cs) = r @ replaceRuns 1 isSpace r (dropWhile isSpace cs)"
  by simp

lemma collapse_nonspace:
  "\<not> isSpace c \<Longrightarrow> replaceRuns 1 isSpace r (c # cs) = c # replaceRuns 1 isSpace r cs"
  by simp

lemma last_dropWhile: "dropWhile P xs \<noteq> [] \<Longrightarrow> last (dropWhile P xs) = last xs"
  by (induction xs) (auto split: if_splits)

lemma collapse_shape:
  "replaceRuns 1 isSpace [32] s =
     (if s \<noteq> [] \<and> isSpace (hd s) then [32] else [])
     @ join [32] (tokens s)
     @ (if tokens s \<noteq> [] \<and> isSpace (last s) then [32] else [])"
proof (induction s rule: length_induct)
  case (1 s)
  note IH = 1
  show ?case
  proof (cases s)
    case Nil
    then show ?thesis by simp
  next
    case (Cons c cs)
    show ?thesis
    proof (cases "isSpace c")
      case True
      define s' where "s' = dropWhile isSpace cs"
      have len: "length s' < length s"
        unfolding s'_def Cons using length_dropWhile_le [of isSpace cs] by simp
      have nolead: "\<not> (s' \<noteq> [] \<and> isSpace (hd s'))"
        unfolding s'_def by (metis hd_dropWhile)
      have tok: "tokens s' = tokens s" unfolding s'_def Cons using True by simp
      have lst: "tokens s' \<noteq> [] \<Longrightarrow> last s' = last s"
      proof -
        assume "tokens s' \<noteq> []"
        then have ne: "s' \<noteq> []" by auto
        then have "last s' = last cs" unfolding s'_def by (rule last_dropWhile)
        moreover have "cs \<noteq> []" using ne unfolding s'_def by auto
        ultimately show ?thesis unfolding Cons by simp
      qed
      have "replaceRuns 1 isSpace [32] s' =
          join [32] (tokens s') @ (if tokens s' \<noteq> [] \<and> isSpace (last s') then [32] else [])"
        using IH len nolead by simp
      then have "replaceRuns 1 isSpace [32] s =
          [32] @ join [32] (tokens s) @ (if tokens s \<noteq> [] \<and> isSpace (last s) then [32] else [])"
        unfolding Cons collapse_space [OF True] s'_def [symmetric] using tok lst
        by (auto simp: Cons)
      then show ?thesis using True Cons by simp
    next
      case False
      have ih: "replaceRuns 1 isSpace [32] cs =
          (if cs \<noteq> [] \<and> isSpace (hd cs) then [32] else [])
          @ join [32] (tokens cs)
          @ (if tokens cs \<noteq> [] \<and> isSpace (last cs) then [32] else [])"
        using IH Cons by simp
      show ?thesis
      proof (cases cs)
        case Nil
        then show ?thesis using False Cons by simp
      next
        case (Cons d ds)
        show ?thesis
        proof (cases "isSpace d")
          case True
          have tok: "tokens s = [c] # tokens cs"
            using False True Cons \<open>s = c # cs\<close> by simp
          show ?thesis
          proof (cases "tokens cs = []")
            case True2: True
            then have "\<forall>x\<in>set cs. isSpace x" by (simp add: tokens_Nil_iff)
            then have "isSpace (last cs)" using Cons by (metis last_in_set list.distinct(1))
            then show ?thesis
              using ih True2 True Cons False \<open>s = c # cs\<close> tok by simp
          next
            case False2: False
            then show ?thesis
              using ih True Cons False \<open>s = c # cs\<close> tok by (simp add: join_Cons)
          qed
        next
          case False2: False
          have tokcs: "tokens cs = (d # takeWhile (\<lambda>x. \<not> isSpace x) ds) # tokens (dropWhile (\<lambda>x. \<not> isSpace x) ds)"
            using False2 Cons by simp
          have tok: "tokens s = (c # d # takeWhile (\<lambda>x. \<not> isSpace x) ds) # tokens (dropWhile (\<lambda>x. \<not> isSpace x) ds)"
            using False False2 Cons \<open>s = c # cs\<close> by simp
          have j: "join [32] (tokens s) = c # join [32] (tokens cs)"
            unfolding tok tokcs by (simp add: join_Cons)
          show ?thesis
            using ih False False2 Cons \<open>s = c # cs\<close> j tokcs by simp
        qed
      qed
    qed
  qed
qed

lemma clean_tokens: "clean s = join [32] (tokens s)"
proof (cases "tokens s = []")
  case True
  then have "replaceRuns 1 isSpace [32] s = (if s \<noteq> [] \<and> isSpace (hd s) then [32] else [])"
    using collapse_shape [of s] by simp
  then show ?thesis using True by (simp add: clean_def js_def trim_def isSpace_def)
next
  case False
  define J where "J = join [32] (tokens s)"
  have J: "J \<noteq> []" "\<not> isSpace (hd J)" "\<not> isSpace (last J)"
    using join_ends [OF False] tokens_wf [of _ s] unfolding J_def by blast+
  have sp: "isSpace 32" by (simp add: isSpace_def)
  define a :: jsstring where "a = (if s \<noteq> [] \<and> isSpace (hd s) then [32] else [])"
  define b :: jsstring where "b = (if tokens s \<noteq> [] \<and> isSpace (last s) then [32] else [])"
  have shape: "replaceRuns 1 isSpace [32] s = a @ J @ b"
    unfolding a_def b_def J_def by (rule collapse_shape)
  have a: "a = [] \<or> a = [32]" and b: "b = [] \<or> b = [32]"
    by (simp_all add: a_def b_def)
  have 1: "dropWhile isSpace (a @ J @ b) = J @ b"
    using a J(1,2) sp by (cases J) auto
  have 2: "dropWhile isSpace (rev (J @ b)) = rev J"
    using b J(1,3) sp by (cases "rev J") (auto simp: last_rev hd_rev)
  show ?thesis
    unfolding clean_def trim_def js_def
    using shape 1 2 by (simp add: J_def)
qed

lemma walk_textNode [simp]: "walk (textNode t) acc = acc @ [t]"
  by (simp add: textNode_def)

lemma walk_hardBreak [simp]: "walk hardBreak acc = acc @ [[10]]"
  by (simp add: hardBreak_def)

lemma fold_walk_lineNodes: "concat (fold walk (lineNodes ls) acc) = concat acc @ join [10] ls"
  by (induction ls arbitrary: acc rule: lineNodes.induct) simp_all

lemma splitOn_nonempty: "splitOn sep s \<noteq> []"
  by (subst splitOn.simps) (simp split: list.splits)

lemma dropWhile_neq_hd: "dropWhile (\<lambda>c. c \<noteq> sep) s = x # r \<Longrightarrow> x = sep"
  by (metis (mono_tags, lifting) hd_dropWhile list.distinct(1) list.sel(1))

lemma join_splitOn: "join [sep] (splitOn sep s) = s"
proof (induction sep s rule: splitOn.induct)
  case (1 sep s)
  show ?case
  proof (cases "dropWhile (\<lambda>c. c \<noteq> sep) s")
    case Nil
    then show ?thesis by (subst splitOn.simps) (simp only: list.case join.simps)
  next
    case (Cons x r)
    then have x: "x = sep" by (rule dropWhile_neq_hd)
    have s: "s = takeWhile (\<lambda>c. c \<noteq> sep) s @ sep # r"
      using Cons x by (metis takeWhile_dropWhile_id)
    have "splitOn sep s = takeWhile (\<lambda>c. c \<noteq> sep) s # splitOn sep r"
      by (subst splitOn.simps) (simp only: Cons list.case)
    then have "join [sep] (splitOn sep s) = takeWhile (\<lambda>c. c \<noteq> sep) s @ [sep] @ join [sep] (splitOn sep r)"
      using splitOn_nonempty [of sep r] by (simp add: join_Cons)
    also have "\<dots> = takeWhile (\<lambda>c. c \<noteq> sep) s @ sep # r"
      using "1.IH" [OF Cons] by simp
    finally show ?thesis using s by simp
  qed
qed

lemma walk_paragraph: "concat (walk (paragraphToTiptap blk) acc) = concat acc @ 10 # blk"
proof -
  have "concat (fold walk (lineNodes (splitOn 10 blk)) (acc @ [[10]])) = concat acc @ 10 # blk"
    by (simp add: fold_walk_lineNodes join_splitOn)
  moreover have "blk = []" if "lineNodes (splitOn 10 blk) = []"
    using fold_walk_lineNodes [of "splitOn 10 blk" "[]"] that by (simp add: join_splitOn)
  ultimately show ?thesis
    by (auto simp: paragraphToTiptap_def Let_def)
qed

lemma fold_walk_paragraphs:
  "concat (fold walk (map paragraphToTiptap blocks) acc) = concat acc @ concat (map ((#) 10) blocks)"
  by (induction blocks arbitrary: acc) (simp_all add: walk_paragraph)

lemma walk_textToDoc:
  "concat (walk (textToDoc b) []) = (if blocksOf b = [] then [10] else concat (map ((#) 10) (blocksOf b)))"
  by (simp add: textToDoc_def Let_def blocksOf_def [symmetric] fold_walk_paragraphs)

lemma tokens_blocksOf: "concat (map tokens (blocksOf b)) = tokens b"
proof -
  have nl: "\<And>c. isNewline c \<Longrightarrow> isSpace c" by (simp add: isNewline_def isSpace_def)
  have "concat (map tokens (blocksOf b)) = tokens (crToLf (crlfToLf b))"
    unfolding blocksOf_def blocks_tokens
    using splitRuns_tokens [where P = isNewline and n = 2 and cur = "[]"] nl by simp
  then show ?thesis by (simp add: crToLf_tokens crlfToLf_tokens)
qed

lemma tokens_concat_nl: "tokens (concat (map ((#) 10) blocks)) = concat (map tokens blocks)"
proof (induction blocks)
  case Nil
  then show ?case by simp
next
  case (Cons b bs)
  have sp: "isSpace 10" by (simp add: isSpace_def)
  have "tokens (b @ 10 # concat (map ((#) 10) bs)) = tokens b @ tokens (concat (map ((#) 10) bs))"
    using sp by (rule tokens_space_append)
  moreover have "concat (map ((#) 10) bs) = [] \<or> (\<exists>r. concat (map ((#) 10) bs) = 10 # r)"
    by (cases bs) simp_all
  then have "tokens (b @ concat (map ((#) 10) bs)) = tokens b @ tokens (concat (map ((#) 10) bs))"
    using sp by (auto simp: tokens_space_append)
  ultimately show ?case using Cons sp by simp
qed

lemma tokens_editorToPlainText: "tokens (editorToPlainText (textToDoc b)) = tokens b"
proof -
  have nl: "\<And>c. isNewline c \<Longrightarrow> isSpace c" by (simp add: isNewline_def isSpace_def)
  have r: "\<forall>c\<in>set [10, 10]. isSpace c" "[10, 10::nat] \<noteq> []" by (simp_all add: isSpace_def)
  have "tokens (editorToPlainText (textToDoc b)) = tokens (concat (walk (textToDoc b) []))"
    unfolding editorToPlainText_def using replaceRuns_tokens [OF nl r] by simp
  also have "\<dots> = tokens b"
  proof (cases "blocksOf b = []")
    case True
    then have "tokens b = []" using tokens_blocksOf [of b] by simp
    then show ?thesis using True by (simp add: walk_textToDoc isSpace_def)
  next
    case False
    then show ?thesis by (simp add: walk_textToDoc tokens_concat_nl tokens_blocksOf)
  qed
  finally show ?thesis .
qed

subsection \<open>The projected text, exactly\<close>

lemma isSpace_10 [simp]: "isSpace 10"
  by (simp add: isSpace_def)

lemma noDouble_Cons: "noDouble (c # cs) \<longleftrightarrow> noDouble cs \<and> (cs = [] \<or> \<not> (c = 10 \<and> hd cs = 10))"
  by (cases cs) auto

lemma noDouble_append:
  "noDouble (xs @ ys) \<longleftrightarrow>
     noDouble xs \<and> noDouble ys \<and> (xs = [] \<or> ys = [] \<or> \<not> (last xs = 10 \<and> hd ys = 10))"
proof (induction xs rule: noDouble.induct)
  case 1
  then show ?case by simp
next
  case (2 c)
  then show ?case by (simp add: noDouble_Cons)
next
  case (3 c d cs)
  then show ?case by simp
qed

lemma replaceRuns_noDouble:
  "noDouble s \<Longrightarrow> 2 \<le> n \<Longrightarrow> replaceRuns n isNewline r s = s"
proof (induction s rule: noDouble.induct)
  case 1
  then show ?case by simp
next
  case (2 c)
  then show ?case by simp
next
  case (3 c d cs)
  then have "length (takeWhile isNewline (c # d # cs)) \<le> 1"
    by (auto simp: isNewline_def)
  then have "\<not> n \<le> length (takeWhile isNewline (c # d # cs))"
    using "3.prems"(2) by linarith
  then have "replaceRuns n isNewline r (c # d # cs) = c # replaceRuns n isNewline r (d # cs)"
    by (simp only: replaceRuns.simps simp_thms if_False)
  then show ?case using 3 by simp
qed

lemma splitRuns_noDouble:
  "noDouble s \<Longrightarrow> 2 \<le> n \<Longrightarrow> splitRuns n isNewline cur s = [cur @ s]"
proof (induction s arbitrary: cur rule: noDouble.induct)
  case 1
  then show ?case by simp
next
  case (2 c)
  then show ?case by simp
next
  case (3 c d cs)
  then have "length (takeWhile isNewline (c # d # cs)) \<le> 1"
    by (auto simp: isNewline_def)
  then have "\<not> n \<le> length (takeWhile isNewline (c # d # cs))"
    using "3.prems"(2) by linarith
  then have "splitRuns n isNewline cur (c # d # cs) = splitRuns n isNewline (cur @ [c]) (d # cs)"
    by (simp only: splitRuns.simps simp_thms if_False)
  then show ?case using 3 by simp
qed

lemma crlfToLf_id: "13 \<notin> set s \<Longrightarrow> crlfToLf s = s"
  by (induction s rule: crlfToLf.induct) auto

lemma crToLf_id: "13 \<notin> set s \<Longrightarrow> crToLf s = s"
  by (induction s) (auto simp: crToLf_def)

lemma crToLf_no13: "13 \<notin> set (crToLf s)"
  by (auto simp: crToLf_def)

lemma trim_id: "s \<noteq> [] \<Longrightarrow> \<not> isSpace (hd s) \<Longrightarrow> \<not> isSpace (last s) \<Longrightarrow> trim s = s"
proof -
  assume a: "s \<noteq> []" "\<not> isSpace (hd s)" "\<not> isSpace (last s)"
  then have 1: "dropWhile isSpace s = s" by (cases s) simp_all
  have "rev s \<noteq> []" "\<not> isSpace (hd (rev s))" using a by (simp_all add: hd_rev)
  then have 2: "dropWhile isSpace (rev s) = rev s" by (cases "rev s") simp_all
  show ?thesis by (simp add: trim_def 1 2)
qed

lemma trim_decomp: "\<exists>pre post. s = pre @ trim s @ post"
proof -
  define y where "y = dropWhile isSpace s"
  have "s = takeWhile isSpace s @ y" by (simp add: y_def)
  moreover have "y = rev (dropWhile isSpace (rev y)) @ rev (takeWhile isSpace (rev y))"
    by (metis rev_append rev_rev_ident takeWhile_dropWhile_id)
  ultimately have "s = takeWhile isSpace s @ trim s @ rev (takeWhile isSpace (rev y))"
    by (simp add: trim_def y_def)
  then show ?thesis by blast
qed

lemma trim_ends: "trim s \<noteq> [] \<Longrightarrow> \<not> isSpace (hd (trim s)) \<and> \<not> isSpace (last (trim s))"
proof -
  assume ne: "trim s \<noteq> []"
  define y where "y = dropWhile isSpace s"
  define z where "z = dropWhile isSpace (rev y)"
  have t: "trim s = rev z" by (simp add: trim_def y_def z_def)
  then have zne: "z \<noteq> []" using ne by simp
  then have hz: "\<not> isSpace (hd z)" unfolding z_def by (metis hd_dropWhile)
  have "last (trim s) = hd z" using zne t by (simp add: last_rev)
  moreover have "\<not> isSpace (hd (trim s))"
  proof -
    have yne: "y \<noteq> []" using zne z_def by auto
    then have hy: "\<not> isSpace (hd y)" unfolding y_def by (metis hd_dropWhile)
    obtain q where "rev y = q @ z" unfolding z_def by (metis takeWhile_dropWhile_id)
    then have "y = rev z @ rev q" by (metis rev_append rev_rev_ident)
    then have "hd y = hd (rev z)" using zne by simp
    then show ?thesis using hy t by simp
  qed
  ultimately show ?thesis using hz by simp
qed

lemma splitRuns_subset:
  "x \<in> set (splitRuns n P cur s) \<Longrightarrow> set x \<subseteq> set cur \<union> set s"
proof (induction n P cur s arbitrary: x rule: splitRuns.induct)
  case (1 n P cur)
  then show ?case by simp
next
  case (2 n P cur c cs)
  show ?case
  proof (cases "P c \<and> n \<le> length (takeWhile P (c # cs))")
    case True
    then have "splitRuns n P cur (c # cs) = cur # splitRuns n P [] (dropWhile P cs)"
      by (simp only: splitRuns.simps simp_thms if_True)
    then consider "x = cur" | "x \<in> set (splitRuns n P [] (dropWhile P cs))"
      using "2.prems" by auto
    then show ?thesis
    proof cases
      case 1
      then show ?thesis by auto
    next
      case 2
      then have "set x \<subseteq> set [] \<union> set (dropWhile P cs)"
        using "2.IH"(1) [OF True] by blast
      then show ?thesis using set_dropWhileD [of _ P cs] by auto
    qed
  next
    case False
    then have "splitRuns n P cur (c # cs) = splitRuns n P (cur @ [c]) cs"
      by (simp only: splitRuns.simps simp_thms if_False)
    then have "set x \<subseteq> set (cur @ [c]) \<union> set cs"
      using "2.IH"(2) [OF False] "2.prems" by simp
    then show ?thesis by auto
  qed
qed

lemma splitRuns_pieces_noDouble:
  "noDouble cur \<Longrightarrow> (cur = [] \<or> s = [] \<or> \<not> (last cur = 10 \<and> hd s = 10)) \<Longrightarrow>
   x \<in> set (splitRuns 2 isNewline cur s) \<Longrightarrow> noDouble x"
proof (induction "2::nat" isNewline cur s arbitrary: x rule: splitRuns.induct)
  case (1 cur)
  then show ?case by simp
next
  case (2 cur c cs)
  show ?case
  proof (cases "isNewline c \<and> 2 \<le> length (takeWhile isNewline (c # cs))")
    case True
    then have "splitRuns 2 isNewline cur (c # cs) = cur # splitRuns 2 isNewline [] (dropWhile isNewline cs)"
      by (simp only: splitRuns.simps simp_thms if_True)
    then consider "x = cur" | "x \<in> set (splitRuns 2 isNewline [] (dropWhile isNewline cs))"
      using "2.prems"(3) by auto
    then show ?thesis
    proof cases
      case 1
      then show ?thesis using "2.prems"(1) by simp
    next
      case 2
      show ?thesis by (rule "2.hyps"(1) [OF True _ _ 2]) simp_all
    qed
  next
    case False
    then have eq: "splitRuns 2 isNewline cur (c # cs) = splitRuns 2 isNewline (cur @ [c]) cs"
      by (simp only: splitRuns.simps simp_thms if_False)
    have nd: "noDouble (cur @ [c])"
      using "2.prems"(1,2) by (auto simp: noDouble_append)
    have sep: "cur @ [c] = [] \<or> cs = [] \<or> \<not> (last (cur @ [c]) = 10 \<and> hd cs = 10)"
    proof (cases "c = 10 \<and> cs \<noteq> [] \<and> hd cs = 10")
      case True
      then have "2 \<le> length (takeWhile isNewline (c # cs))"
        by (cases cs) (simp_all add: isNewline_def)
      then show ?thesis using False True by (simp add: isNewline_def)
    next
      case False
      then show ?thesis by auto
    qed
    show ?thesis
      by (rule "2.hyps"(2) [OF False nd sep]) (use "2.prems"(3) eq in simp)
  qed
qed

lemma noDouble_part: "noDouble (pre @ x @ post) \<Longrightarrow> noDouble x"
  by (simp add: noDouble_append)

lemma goodBlock_blocksOf: "x \<in> set (blocksOf b) \<Longrightarrow> goodBlock x"
proof -
  assume "x \<in> set (blocksOf b)"
  then obtain y where y: "y \<in> set (splitRuns 2 isNewline [] (crToLf (crlfToLf b)))"
    and x: "x = trim y" and ne: "x \<noteq> []"
    by (auto simp: blocksOf_def)
  have "noDouble y" using _ _ y by (rule splitRuns_pieces_noDouble) simp_all
  moreover obtain pre post where d: "y = pre @ trim y @ post" using trim_decomp by blast
  ultimately have nd: "noDouble x" unfolding x by (metis noDouble_part)
  have "set y \<subseteq> set (crToLf (crlfToLf b))" using splitRuns_subset [OF y] by simp
  then have "13 \<notin> set y" using crToLf_no13 by blast
  then have n13: "13 \<notin> set x" unfolding x using d by (metis Un_iff set_append)
  show ?thesis
    unfolding goodBlock_def using ne nd n13 trim_ends [of y] x by simp
qed

lemma concat_nl_join: "B \<noteq> [] \<Longrightarrow> concat (map ((#) 10) B) = 10 # join [10] B"
proof (induction B)
  case Nil
  then show ?case by simp
next
  case (Cons x xs)
  then show ?case by (cases xs) simp_all
qed

lemma goodBlock_join:
  "B \<noteq> [] \<Longrightarrow> \<forall>x\<in>set B. goodBlock x \<Longrightarrow> goodBlock (join [10] B)"
proof (induction B)
  case Nil
  then show ?case by simp
next
  case (Cons x xs)
  show ?case
  proof (cases "xs = []")
    case True
    then show ?thesis using Cons.prems by simp
  next
    case False
    then have ih: "goodBlock (join [10] xs)" using Cons by simp
    have gx: "goodBlock x" using Cons.prems by simp
    have eq: "join [10] (x # xs) = x @ 10 # join [10] xs"
      using False by (cases xs) simp_all
    have "noDouble (x @ [10] @ join [10] xs)"
      using gx ih unfolding goodBlock_def
      by (auto simp: noDouble_append noDouble_Cons)
    then show ?thesis
      unfolding eq using gx ih by (auto simp: goodBlock_def)
  qed
qed

lemma projection_join: "editorToPlainText (textToDoc b) = join [10] (blocksOf b)"
proof (cases "blocksOf b = []")
  case True
  have "trim (replaceRuns 3 isNewline [10, 10] [10]) = []"
    by (simp add: isNewline_def trim_def)
  then show ?thesis using True by (simp add: editorToPlainText_def walk_textToDoc)
next
  case False
  define J where "J = join [10] (blocksOf b)"
  have g: "goodBlock J"
    unfolding J_def using False goodBlock_blocksOf by (intro goodBlock_join) blast+
  then have "noDouble (10 # J)" by (auto simp: goodBlock_def noDouble_Cons)
  then have "replaceRuns 3 isNewline [10, 10] (10 # J) = 10 # J"
    by (rule replaceRuns_noDouble) simp
  moreover have "trim (10 # J) = J"
  proof -
    have "trim (10 # J) = trim J" by (simp add: trim_def)
    then show ?thesis using g by (simp add: goodBlock_def trim_id)
  qed
  ultimately show ?thesis
    using False by (simp add: editorToPlainText_def walk_textToDoc concat_nl_join J_def)
qed

lemma blocksOf_join:
  "blocksOf (join [10] (blocksOf b)) = (if blocksOf b = [] then [] else [join [10] (blocksOf b)])"
proof (cases "blocksOf b = []")
  case True
  then show ?thesis by (simp add: blocksOf_def [of "[]"] crToLf_def trim_def)
next
  case False
  define J where "J = join [10] (blocksOf b)"
  have g: "goodBlock J"
    unfolding J_def using False goodBlock_blocksOf by (intro goodBlock_join) blast+
  then have "crToLf (crlfToLf J) = J" by (simp add: goodBlock_def crlfToLf_id crToLf_id)
  moreover have "splitRuns 2 isNewline [] J = [J]"
    using g by (simp add: goodBlock_def splitRuns_noDouble)
  moreover have "trim J = J" using g by (simp add: goodBlock_def trim_id)
  ultimately have "blocksOf J = [J]" using g by (simp add: blocksOf_def goodBlock_def)
  then show ?thesis using False by (simp add: J_def)
qed

lemma projection_idempotent:
  "editorToPlainText (textToDoc (editorToPlainText (textToDoc b))) = editorToPlainText (textToDoc b)"
  by (simp add: projection_join blocksOf_join)

lemma collapse_trimmed:
  assumes "s = [] \<or> (\<not> isSpace (hd s) \<and> \<not> isSpace (last s))"
  shows "replaceRuns 1 isSpace [32] s = clean s"
proof -
  have "replaceRuns 1 isSpace [32] s = join [32] (tokens s)"
    using assms collapse_shape [of s] by auto
  then show ?thesis by (simp add: clean_tokens)
qed

lemma projection_trimmed:
  "editorToPlainText jsonDoc = [] \<or>
   (\<not> isSpace (hd (editorToPlainText jsonDoc)) \<and> \<not> isSpace (last (editorToPlainText jsonDoc)))"
  unfolding editorToPlainText_def using trim_ends by blast

lemma collapse_projection:
  "replaceRuns 1 isSpace (js '' '') (editorToPlainText (textToDoc b)) = clean b"
proof -
  have "js '' '' = [32]" by (simp add: js_def)
  then have "replaceRuns 1 isSpace (js '' '') (editorToPlainText (textToDoc b))
      = clean (editorToPlainText (textToDoc b))"
    using collapse_trimmed [OF projection_trimmed] by simp
  then show ?thesis by (simp add: clean_tokens tokens_editorToPlainText)
qed

text \<open>
  Claim C8: projecting the compiled document of a body text to plain text and collapsing
  its white space gives the normalized body text, that is \<open>clean\<close> of it: runs of white
  space collapsed to single spaces and the ends trimmed. On the projected text the
  collapse alone is enough, since the projection ends with \<^verbatim>\<open>trim()\<close>. The projection is
  a function of the document alone (\<open>walk\<close> writes only to its own array), so two
  applications to the same document give the same string; and compiling the projected text
  and projecting again gives the projected text back.
\<close>

theorem plain_text_round_trip:
  "clean (editorToPlainText (textToDoc bodyText)) = clean bodyText
   \<and> replaceRuns 1 isSpace (js '' '') (editorToPlainText (textToDoc bodyText)) = clean bodyText
   \<and> editorToPlainText jsonDoc = editorToPlainText jsonDoc
   \<and> editorToPlainText (textToDoc (editorToPlainText (textToDoc bodyText)))
       = editorToPlainText (textToDoc bodyText)"
proof -
  have "clean (editorToPlainText (textToDoc bodyText)) = clean bodyText"
    by (simp add: clean_tokens tokens_editorToPlainText)
  then show ?thesis
    using collapse_projection [of bodyText] projection_idempotent [of bodyText] by blast
qed

section \<open>The import entry point\<close>

text \<open>
  The value the code compares with "rtf" and "docx" is the lower-cased extension of the name
  when the name has a dot, and the lower-cased name itself when it has none.
\<close>

lemma takeWhile_append_stop:
  "\<not> P y \<Longrightarrow> takeWhile P (xs @ y # ys) = takeWhile P xs"
  by (induction xs) simp_all

lemma last_splitOn:
  "last (splitOn sep s) = rev (takeWhile (\<lambda>c. c \<noteq> sep) (rev s))"
proof (induction sep s rule: splitOn.induct)
  case (1 sep s)
  show ?case
  proof (cases "dropWhile (\<lambda>c. c \<noteq> sep) s")
    case Nil
    then have all: "\<forall>c\<in>set s. c \<noteq> sep" by (simp add: dropWhile_eq_Nil_conv)
    have "splitOn sep s = [s]" by (subst splitOn.simps) (simp only: Nil list.case)
    moreover have "takeWhile (\<lambda>c. c \<noteq> sep) (rev s) = rev s"
      using all by (simp add: takeWhile_eq_all_conv)
    ultimately show ?thesis by (simp only: last.simps simp_thms if_True rev_rev_ident)
  next
    case (Cons x r)
    then have x: "x = sep" using hd_dropWhile [of "\<lambda>c. c \<noteq> sep" s] by force
    have s: "s = takeWhile (\<lambda>c. c \<noteq> sep) s @ sep # r"
      using takeWhile_dropWhile_id [of "\<lambda>c. c \<noteq> sep" s] Cons x by simp
    have "splitOn sep s = takeWhile (\<lambda>c. c \<noteq> sep) s # splitOn sep r"
      by (subst splitOn.simps) (simp only: Cons list.case)
    then have "last (splitOn sep s) = last (splitOn sep r)"
      using splitOn_nonempty [of sep r] by simp
    also have "\<dots> = rev (takeWhile (\<lambda>c. c \<noteq> sep) (rev r))" by (rule 1 [OF Cons])
    also have "takeWhile (\<lambda>c. c \<noteq> sep) (rev r)
        = takeWhile (\<lambda>c. c \<noteq> sep) (rev r @ sep # rev (takeWhile (\<lambda>c. c \<noteq> sep) s))"
      by (simp add: takeWhile_append_stop)
    also have "rev r @ sep # rev (takeWhile (\<lambda>c. c \<noteq> sep) s) = rev s"
    proof -
      have "rev s = rev (takeWhile (\<lambda>c. c \<noteq> sep) s @ sep # r)" using s by simp
      then show ?thesis by simp
    qed
    finally show ?thesis .
  qed
qed

lemma extension_filenameExtension:
  "extension name = toLowerCase (case filenameExtension name of Some e \<Rightarrow> e | None \<Rightarrow> name)"
proof (cases "46 \<in> set name")
  case True
  then show ?thesis by (simp add: extension_def filenameExtension_def last_splitOn orElse_def)
next
  case False
  then have tw: "takeWhile (\<lambda>c. c \<noteq> 46) (rev name) = rev name"
    by (auto simp: takeWhile_eq_all_conv)
  have "extension name = toLowerCase (orElse name [])"
    unfolding extension_def last_splitOn tw rev_rev_ident ..
  then show ?thesis using False
    by (simp add: filenameExtension_def orElse_def)
qed

lemma import_dispatch:
  "parseImportFile upperTable parseRTF parseDOCX (Some f) =
     (let name = orElse (fname f) (js ''Imported'');
          ext = extension name;
          fallbackTitle = filenameToTitle name
      in if ext = js ''rtf'' \<or> includesStr (ftype f) (js ''rtf'')
         then ([RTF], case parseRTF f of Inl e \<Rightarrow> Inl e
                      | Inr ps \<Rightarrow> Inr (splitFromParagraphs upperTable ps fallbackTitle))
         else if ext = js ''docx'' \<or> includesStr (ftype f) (js ''officedocument'')
         then ([DOCX], case parseDOCX f of Inl e \<Rightarrow> Inl e
                       | Inr ps \<Rightarrow> Inr (splitFromParagraphs upperTable ps fallbackTitle))
         else ([], Inl UnsupportedFileType))"
  by (simp add: parseImportFile_def Let_def)

lemma named_extension_refused:
  assumes "filenameExtension (orElse (fname f) (js ''Imported'')) = Some e"
    and "toLowerCase e \<noteq> js ''rtf''" "toLowerCase e \<noteq> js ''docx''"
    and "\<not> includesStr (ftype f) (js ''rtf'')" "\<not> includesStr (ftype f) (js ''officedocument'')"
  shows "parseImportFile upperTable parseRTF parseDOCX (Some f) = ([], Inl UnsupportedFileType)"
  using assms by (simp add: import_dispatch Let_def extension_filenameExtension)

lemma import_examples:
  "parseImportFile latin1Upper (\<lambda>f. Inr []) (\<lambda>f. Inr [])
       (Some \<lparr>fname = js ''notes.txt'', ftype = js ''text/plain'', fdata = []\<rparr>)
     = ([], Inl UnsupportedFileType)
   \<and> fst (parseImportFile latin1Upper (\<lambda>f. Inr []) (\<lambda>f. Inl (DecodeError (js ''DOCX missing word/document.xml'')))
       (Some \<lparr>fname = js ''novel.RTF'', ftype = js '''', fdata = []\<rparr>)) = [RTF]
   \<and> parseImportFile latin1Upper (\<lambda>f. Inr []) (\<lambda>f. Inl (DecodeError (js ''DOCX missing word/document.xml'')))
       (Some \<lparr>fname = js ''novel'', ftype = js ''application/vnd.openxmlformats-officedocument.wordprocessingml.document'', fdata = []\<rparr>)
     = ([DOCX], Inl (DecodeError (js ''DOCX missing word/document.xml'')))"
proof -
  let ?f1 = "\<lparr>fname = js ''notes.txt'', ftype = js ''text/plain'', fdata = []\<rparr>"
  let ?f2 = "\<lparr>fname = js ''novel.RTF'', ftype = js '''', fdata = []\<rparr>"
  let ?f3 = "\<lparr>fname = js ''novel'', ftype = js ''application/vnd.openxmlformats-officedocument.wordprocessingml.document'', fdata = []\<rparr>"
  have a: "filenameExtension (orElse (fname ?f1) (js ''Imported'')) = Some (js ''txt'')
      \<and> toLowerCase (js ''txt'') \<noteq> js ''rtf'' \<and> toLowerCase (js ''txt'') \<noteq> js ''docx''
      \<and> \<not> includesStr (ftype ?f1) (js ''rtf'') \<and> \<not> includesStr (ftype ?f1) (js ''officedocument'')"
    by code_simp
  have b: "extension (orElse (fname ?f2) (js ''Imported'')) = js ''rtf''" by code_simp
  have c: "extension (orElse (fname ?f3) (js ''Imported'')) \<noteq> js ''rtf''
      \<and> \<not> includesStr (ftype ?f3) (js ''rtf'') \<and> includesStr (ftype ?f3) (js ''officedocument'')"
    by code_simp
  have 1: "parseImportFile latin1Upper (\<lambda>f. Inr []) (\<lambda>f. Inr []) (Some ?f1) = ([], Inl UnsupportedFileType)"
    using a by (intro named_extension_refused [where e = "js ''txt''"]) simp_all
  have 2: "fst (parseImportFile latin1Upper (\<lambda>f. Inr [])
      (\<lambda>f. Inl (DecodeError (js ''DOCX missing word/document.xml''))) (Some ?f2)) = [RTF]"
    using b by (simp add: import_dispatch Let_def)
  have 3: "parseImportFile latin1Upper (\<lambda>f. Inr [])
      (\<lambda>f. Inl (DecodeError (js ''DOCX missing word/document.xml''))) (Some ?f3)
      = ([DOCX], Inl (DecodeError (js ''DOCX missing word/document.xml'')))"
    using c by (simp add: import_dispatch Let_def)
  show ?thesis using 1 2 3 by blast
qed

text \<open>
  Claim C9 says that a file whose name has neither the extension "rtf" nor "docx" and whose
  media type contains neither "rtf" nor "officedocument" is refused before any decoder is
  called. The code compares the last piece of the name split at dots, which is the whole
  name when the name has no dot. A file named "rtf" of type "text/plain" has no extension
  (and \<^verbatim>\<open>filenameToTitle\<close> removes none from its name), yet it is given to the RTF decoder
  and the import goes on with what that decoder returns; a file named "docx" is given to the
  DOCX decoder in the same way. The message of the refusal speaks of ".docx or .rtf".
\<close>

theorem dotless_name_is_decoded:
  "filenameExtension (js ''rtf'') = None
   \<and> stripExtension (js ''rtf'') = js ''rtf''
   \<and> \<not> includesStr (js ''text/plain'') (js ''rtf'')
   \<and> \<not> includesStr (js ''text/plain'') (js ''officedocument'')
   \<and> parseImportFile upperTable parseRTF parseDOCX
        (Some \<lparr>fname = js ''rtf'', ftype = js ''text/plain'', fdata = d\<rparr>)
       = ([RTF], case parseRTF \<lparr>fname = js ''rtf'', ftype = js ''text/plain'', fdata = d\<rparr> of
                   Inl e \<Rightarrow> Inl e
                 | Inr ps \<Rightarrow> Inr (splitFromParagraphs upperTable ps (js ''rtf'')))
   \<and> filenameExtension (js ''docx'') = None
   \<and> stripExtension (js ''docx'') = js ''docx''
   \<and> parseImportFile upperTable parseRTF parseDOCX
        (Some \<lparr>fname = js ''docx'', ftype = js ''text/plain'', fdata = d\<rparr>)
       = ([DOCX], case parseDOCX \<lparr>fname = js ''docx'', ftype = js ''text/plain'', fdata = d\<rparr> of
                    Inl e \<Rightarrow> Inl e
                  | Inr ps \<Rightarrow> Inr (splitFromParagraphs upperTable ps (js ''docx'')))
   \<and> parseImportFile upperTable (\<lambda>f. Inr []) parseDOCX
        (Some \<lparr>fname = js ''rtf'', ftype = js ''text/plain'', fdata = d\<rparr>)
       = ([RTF], Inr \<lparr>novelTitle = js ''rtf'',
                       chapters = [\<lparr>title = js ''Chapter 1'', doc = textToDoc []\<rparr>]\<rparr>)"
proof -
  have a: "filenameExtension (js ''rtf'') = None \<and> stripExtension (js ''rtf'') = js ''rtf''
      \<and> filenameExtension (js ''docx'') = None \<and> stripExtension (js ''docx'') = js ''docx''"
    by code_simp
  have b: "\<not> includesStr (js ''text/plain'') (js ''rtf'')
      \<and> \<not> includesStr (js ''text/plain'') (js ''officedocument'')"
    by code_simp
  have c: "orElse (js ''rtf'') (js ''Imported'') = js ''rtf''
      \<and> extension (js ''rtf'') = js ''rtf'' \<and> filenameToTitle (js ''rtf'') = js ''rtf''"
    by code_simp
  have d: "orElse (js ''docx'') (js ''Imported'') = js ''docx''
      \<and> extension (js ''docx'') = js ''docx'' \<and> js ''docx'' \<noteq> js ''rtf''
      \<and> filenameToTitle (js ''docx'') = js ''docx''"
    by code_simp
  have e: "splitFromParagraphs upperTable [] (js ''rtf'')
      = \<lparr>novelTitle = js ''rtf'', chapters = [\<lparr>title = js ''Chapter 1'', doc = textToDoc []\<rparr>]\<rparr>"
    by code_simp
  have 1: "parseImportFile upperTable parseRTF parseDOCX
        (Some \<lparr>fname = js ''rtf'', ftype = js ''text/plain'', fdata = d\<rparr>)
       = ([RTF], case parseRTF \<lparr>fname = js ''rtf'', ftype = js ''text/plain'', fdata = d\<rparr> of
                   Inl e \<Rightarrow> Inl e
                 | Inr ps \<Rightarrow> Inr (splitFromParagraphs upperTable ps (js ''rtf'')))" for parseRTF
    using c by (simp add: parseImportFile_def Let_def cong: sum.case_cong)
  have 2: "parseImportFile upperTable parseRTF parseDOCX
        (Some \<lparr>fname = js ''docx'', ftype = js ''text/plain'', fdata = d\<rparr>)
       = ([DOCX], case parseDOCX \<lparr>fname = js ''docx'', ftype = js ''text/plain'', fdata = d\<rparr> of
                    Inl e \<Rightarrow> Inl e
                  | Inr ps \<Rightarrow> Inr (splitFromParagraphs upperTable ps (js ''docx'')))"
    using b d by (simp add: parseImportFile_def Let_def cong: sum.case_cong)
  have 3: "parseImportFile upperTable (\<lambda>f. Inr []) parseDOCX
        (Some \<lparr>fname = js ''rtf'', ftype = js ''text/plain'', fdata = d\<rparr>)
       = ([RTF], Inr \<lparr>novelTitle = js ''rtf'',
                       chapters = [\<lparr>title = js ''Chapter 1'', doc = textToDoc []\<rparr>]\<rparr>)"
    unfolding 1 using e by simp
  show ?thesis using a b 1 2 3 by blast
qed

end
